theory Spec2Isabelle
  imports Main "HOL-Library.Word"
begin

unbundle bit_operations_syntax

section \<open>LinuxTracingHandler: data model\<close>

text \<open>
  The embedding follows \<^verbatim>\<open>OrbitService/LinuxTracingHandler.cpp\<close>. Protobuf messages are
  value data. The fields of a message that the handler never reads, and the messages it only
  forwards (scheduling slices, function calls, ...), are carried as values of a type
  parameter \<open>'m\<close>. A protobuf \<^verbatim>\<open>oneof\<close> is a datatype with one constructor per case;
  setting one member replaces the other, as the generated setters do.
\<close>

type_synonym u64 = "64 word"
type_synonym u32 = "32 word"
type_synonym byte = "8 word"

record Callstack =
  pcs :: "u64 list"

record TracepointInfo =
  category :: string
  name :: string

datatype callstack_or_key = kCallstack Callstack | kCallstackKey u64 | CALLSTACK_OR_KEY_NOT_SET

datatype string_or_key = kString string | kStringKey u64 | STRING_OR_KEY_NOT_SET

datatype tracepoint_info_or_key =
  kTracepointInfo TracepointInfo | kTracepointInfoKey u64 | TRACEPOINT_INFO_OR_KEY_NOT_SET

record 'm CallstackSample =
  callstack_sample_fields :: 'm
  callstack_or_key :: callstack_or_key

record 'm GpuJob =
  gpu_job_fields :: 'm
  timeline_or_key :: string_or_key

record 'm AddressInfo =
  absolute_address :: u64
  address_info_fields :: 'm
  function_name_or_key :: string_or_key
  map_name_or_key :: string_or_key

record 'm TracepointEvent =
  tracepoint_event_fields :: 'm
  tracepoint_info_or_key :: tracepoint_info_or_key

text \<open>\<^verbatim>\<open>CaptureEvent\<close>: the tagged union of everything that goes into the buffer.\<close>

datatype 'm CaptureEvent =
    scheduling_slice 'm
  | callstack_sample "'m CallstackSample"
  | function_call 'm
  | introspection_scope 'm
  | gpu_job "'m GpuJob"
  | thread_name 'm
  | thread_state_slice 'm
  | address_info "'m AddressInfo"
  | tracepoint_event "'m TracepointEvent"
  | interned_callstack u64 Callstack
  | interned_string u64 string
  | interned_tracepoint_info u64 TracepointInfo
  | gpu_queue_submission 'm

section \<open>Intern keys\<close>

text \<open>
  \<^verbatim>\<open>ComputeCallstackKey\<close>: \<^verbatim>\<open>key = 17; for (pc : pcs) key = 31 * key + pc;\<close> on
  \<^verbatim>\<open>uint64_t\<close>, so every operation wraps modulo \<open>2 ^ 64\<close>. The loop is the recursion
  over the remaining program counters with the running key as accumulator.
\<close>

fun ComputeCallstackKey_loop :: "u64 \<Rightarrow> u64 list \<Rightarrow> u64" where
  "ComputeCallstackKey_loop key [] = key"
| "ComputeCallstackKey_loop key (pc # rest) = ComputeCallstackKey_loop (31 * key + pc) rest"

definition ComputeCallstackKey :: "Callstack \<Rightarrow> u64" where
  "ComputeCallstackKey callstack = ComputeCallstackKey_loop 17 (pcs callstack)"

text \<open>
  The hash as the specification words it: seed 17, then one multiply-and-add per
  program counter, in order.
\<close>

definition spec_callstack_hash :: "u64 list \<Rightarrow> u64" where
  "spec_callstack_hash ps = foldl (\<lambda>key pc. 31 * key + pc) 17 ps"

text \<open>
  \<^verbatim>\<open>ComputeStringKey\<close> is \<^verbatim>\<open>std::hash<std::string>\<close>, which the C++ standard leaves to
  the implementation, and \<^verbatim>\<open>OnAddressInfo\<close> calls \<^verbatim>\<open>llvm::demangle\<close>. Both are library
  functions: the model takes them as the parameters \<open>hash\<close> and \<open>demangle\<close>.
\<close>

definition ComputeStringKey :: "(string \<Rightarrow> u64) \<Rightarrow> string \<Rightarrow> u64" where
  "ComputeStringKey hash str = hash str"

section \<open>Handler state\<close>

text \<open>
  The side-channel file \<^verbatim>\<open>/mnt/developer/orbit_test_file\<close> as the worker finds it: missing,
  present but not openable, or present with its bytes.
\<close>

datatype side_file = Absent | Unopenable | Contents "byte list"

text \<open>
  The members of \<^verbatim>\<open>LinuxTracingHandler\<close>, followed by the two pieces of its environment
  that it acts on (the calls received by \<^verbatim>\<open>capture_response_listener_\<close>, oldest first, and
  the side-channel file) and by one history variable: \<open>appended\<close> records every
  \<^verbatim>\<open>event_buffer_.emplace_back\<close>, in order. No operation reads \<open>appended\<close>.
  \<open>tracer\<close> is \<^verbatim>\<open>tracer_ != nullptr\<close>, \<open>sender_thread\<close> is
  \<^verbatim>\<open>sender_thread_.joinable()\<close>, \<open>orbit_tracing_listener\<close> is
  \<^verbatim>\<open>orbit_tracing_listener_ != nullptr\<close>.
\<close>

record 'm LinuxTracingHandler =
  tracer :: bool
  sender_thread :: bool
  orbit_tracing_listener :: bool
  event_buffer :: "'m CaptureEvent list"
  addresses_seen :: "u64 set"
  callstack_keys_sent :: "u64 set"
  string_keys_sent :: "u64 set"
  tracepoint_keys_sent :: "u64 set"
  ProcessEvents_calls :: "'m CaptureEvent list list"
  orbit_test_file :: side_file
  appended :: "'m CaptureEvent list"

definition new_LinuxTracingHandler :: "side_file \<Rightarrow> 'm LinuxTracingHandler" where
  "new_LinuxTracingHandler file =
     \<lparr>tracer = False, sender_thread = False, orbit_tracing_listener = False,
      event_buffer = [], addresses_seen = {}, callstack_keys_sent = {},
      string_keys_sent = {}, tracepoint_keys_sent = {},
      ProcessEvents_calls = [], orbit_test_file = file, appended = []\<rparr>"

text \<open>
  The two ways the process dies: a failed \<^verbatim>\<open>CHECK\<close> aborts it, and a read of a negative
  number of bytes from the side-channel file (see \<open>ReadRaw\<close> below) crashes it.
\<close>

datatype error = CHECK_failed | ReadRaw_negative_size

text \<open>\<^verbatim>\<open>event_buffer_.emplace_back(std::move(event))\<close>.\<close>

definition emplace_back ::
  "'m CaptureEvent \<Rightarrow> 'm LinuxTracingHandler \<Rightarrow> 'm LinuxTracingHandler" where
  "emplace_back event h =
     h\<lparr>event_buffer := event_buffer h @ [event], appended := appended h @ [event]\<rparr>"

section \<open>Interning\<close>

definition InternCallstackIfNecessaryAndGetKey ::
  "Callstack \<Rightarrow> 'm LinuxTracingHandler \<Rightarrow> u64 \<times> 'm LinuxTracingHandler" where
  "InternCallstackIfNecessaryAndGetKey callstack h =
     (let key = ComputeCallstackKey callstack in
      if key \<in> callstack_keys_sent h then (key, h)
      else (key, emplace_back (interned_callstack key callstack)
                   (h\<lparr>callstack_keys_sent := insert key (callstack_keys_sent h)\<rparr>)))"

definition InternStringIfNecessaryAndGetKey ::
  "(string \<Rightarrow> u64) \<Rightarrow> string \<Rightarrow> 'm LinuxTracingHandler \<Rightarrow> u64 \<times> 'm LinuxTracingHandler" where
  "InternStringIfNecessaryAndGetKey hash str h =
     (let key = ComputeStringKey hash str in
      if key \<in> string_keys_sent h then (key, h)
      else (key, emplace_back (interned_string key str)
                   (h\<lparr>string_keys_sent := insert key (string_keys_sent h)\<rparr>)))"

definition InternTracepointInfoIfNecessaryAndGetKey ::
  "(string \<Rightarrow> u64) \<Rightarrow> TracepointInfo \<Rightarrow> 'm LinuxTracingHandler
     \<Rightarrow> u64 \<times> 'm LinuxTracingHandler" where
  "InternTracepointInfoIfNecessaryAndGetKey hash tracepoint_info h =
     (let key = ComputeStringKey hash (category tracepoint_info @ '':'' @ name tracepoint_info) in
      if key \<in> tracepoint_keys_sent h then (key, h)
      else (key, emplace_back
                   (interned_tracepoint_info key
                      \<lparr>category = category tracepoint_info, name = name tracepoint_info\<rparr>)
                   (h\<lparr>tracepoint_keys_sent := insert key (tracepoint_keys_sent h)\<rparr>)))"

section \<open>The tracer's callbacks\<close>

definition OnSchedulingSlice ::
  "'m \<Rightarrow> 'm LinuxTracingHandler \<Rightarrow> error + 'm LinuxTracingHandler" where
  "OnSchedulingSlice x h = Inr (emplace_back (scheduling_slice x) h)"

definition OnCallstackSample ::
  "'m CallstackSample \<Rightarrow> 'm LinuxTracingHandler \<Rightarrow> error + 'm LinuxTracingHandler" where
  "OnCallstackSample sample h =
     (case callstack_or_key sample of
        kCallstack callstack \<Rightarrow>
          (let (key, h1) = InternCallstackIfNecessaryAndGetKey callstack h in
           Inr (emplace_back (callstack_sample (sample\<lparr>callstack_or_key := kCallstackKey key\<rparr>)) h1))
      | _ \<Rightarrow> Inl CHECK_failed)"

definition OnFunctionCall ::
  "'m \<Rightarrow> 'm LinuxTracingHandler \<Rightarrow> error + 'm LinuxTracingHandler" where
  "OnFunctionCall x h = Inr (emplace_back (function_call x) h)"

definition OnIntrospectionScope ::
  "'m \<Rightarrow> 'm LinuxTracingHandler \<Rightarrow> error + 'm LinuxTracingHandler" where
  "OnIntrospectionScope x h = Inr (emplace_back (introspection_scope x) h)"

definition OnGpuJob ::
  "(string \<Rightarrow> u64) \<Rightarrow> 'm GpuJob \<Rightarrow> 'm LinuxTracingHandler \<Rightarrow> error + 'm LinuxTracingHandler" where
  "OnGpuJob hash job h =
     (case timeline_or_key job of
        kString timeline \<Rightarrow>
          (let (key, h1) = InternStringIfNecessaryAndGetKey hash timeline h in
           Inr (emplace_back (gpu_job (job\<lparr>timeline_or_key := kStringKey key\<rparr>)) h1))
      | _ \<Rightarrow> Inl CHECK_failed)"

definition OnThreadName ::
  "'m \<Rightarrow> 'm LinuxTracingHandler \<Rightarrow> error + 'm LinuxTracingHandler" where
  "OnThreadName x h = Inr (emplace_back (thread_name x) h)"

definition OnThreadStateSlice ::
  "'m \<Rightarrow> 'm LinuxTracingHandler \<Rightarrow> error + 'm LinuxTracingHandler" where
  "OnThreadStateSlice x h = Inr (emplace_back (thread_state_slice x) h)"

text \<open>
  \<^verbatim>\<open>OnAddressInfo\<close>: the address gate first; then the two \<^verbatim>\<open>CHECK\<close>s and the two
  interning calls in the order of the source, the function name demangled before it is
  interned.
\<close>

definition OnAddressInfo ::
  "(string \<Rightarrow> u64) \<Rightarrow> (string \<Rightarrow> string) \<Rightarrow> 'm AddressInfo \<Rightarrow> 'm LinuxTracingHandler
     \<Rightarrow> error + 'm LinuxTracingHandler" where
  "OnAddressInfo hash demangle info h =
     (if absolute_address info \<in> addresses_seen h then Inr h
      else
        let h0 = h\<lparr>addresses_seen := insert (absolute_address info) (addresses_seen h)\<rparr> in
        case function_name_or_key info of
          kString function_name \<Rightarrow>
            (let (function_name_key, h1) =
                   InternStringIfNecessaryAndGetKey hash (demangle function_name) h0;
                 info1 = info\<lparr>function_name_or_key := kStringKey function_name_key\<rparr>
             in case map_name_or_key info1 of
                  kString map_name \<Rightarrow>
                    (let (map_name_key, h2) = InternStringIfNecessaryAndGetKey hash map_name h1;
                         info2 = info1\<lparr>map_name_or_key := kStringKey map_name_key\<rparr>
                     in Inr (emplace_back (address_info info2) h2))
                | _ \<Rightarrow> Inl CHECK_failed)
        | _ \<Rightarrow> Inl CHECK_failed)"

definition OnTracepointEvent ::
  "(string \<Rightarrow> u64) \<Rightarrow> 'm TracepointEvent \<Rightarrow> 'm LinuxTracingHandler
     \<Rightarrow> error + 'm LinuxTracingHandler" where
  "OnTracepointEvent hash ev h =
     (case tracepoint_info_or_key ev of
        kTracepointInfo tracepoint_info \<Rightarrow>
          (let (key, h1) = InternTracepointInfoIfNecessaryAndGetKey hash tracepoint_info h in
           Inr (emplace_back
                  (tracepoint_event (ev\<lparr>tracepoint_info_or_key := kTracepointInfoKey key\<rparr>)) h1))
      | _ \<Rightarrow> Inl CHECK_failed)"

section \<open>Reading the side-channel file\<close>

text \<open>
  The input stream is the list of bytes not yet read. \<^verbatim>\<open>ReadLittleEndian32\<close> of protobuf's
  \<^verbatim>\<open>CodedInputStream\<close> returns false (\<open>None\<close>) when fewer than four bytes remain, and
  otherwise yields the value and the rest of the stream.
\<close>

definition ReadLittleEndian32 :: "byte list \<Rightarrow> (u32 \<times> byte list) option" where
  "ReadLittleEndian32 input =
     (case input of
        b0 # b1 # b2 # b3 # rest \<Rightarrow>
          Some (ucast b0 OR push_bit 8 (ucast b1) OR push_bit 16 (ucast b2)
                  OR push_bit 24 (ucast b3), rest)
      | _ \<Rightarrow> None)"

text \<open>
  \<^verbatim>\<open>CodedInputStream::ReadRaw(void* buffer, int size)\<close>: the size is a signed 32-bit
  \<^verbatim>\<open>int\<close>. For a size that is not negative it returns false (\<open>Inr None\<close>) when fewer
  bytes remain, and otherwise yields the bytes and the rest of the stream. It has no guard
  for a negative size: it copies \<^verbatim>\<open>size\<close> bytes, the negative number taken as an unsigned
  one, and the process dies (\<open>Inl ReadRaw_negative_size\<close>).
\<close>

definition ReadRaw :: "int \<Rightarrow> byte list \<Rightarrow> error + (byte list \<times> byte list) option" where
  "ReadRaw sz input =
     (if sz < 0 then Inl ReadRaw_negative_size
      else if nat sz \<le> length input then Inr (Some (take (nat sz) input, drop (nat sz) input))
      else Inr None)"

text \<open>
  \<^verbatim>\<open>ReadMessage\<close>: \<open>Inr None\<close> is the return value false. \<^verbatim>\<open>message_size\<close> is a
  \<^verbatim>\<open>uint32_t\<close>; passing it to \<^verbatim>\<open>ReadRaw\<close> converts it to \<^verbatim>\<open>int\<close>, so a length of
  \<open>2 ^ 31\<close> or more arrives negative (\<open>sint\<close>). \<^verbatim>\<open>ParseFromArray\<close> (the parameter
  \<open>parse\<close>) clears the message and decodes the buffer into it; it yields its boolean
  result and the message as it leaves it. \<^verbatim>\<open>ReadMessage\<close> drops the boolean and returns true.
\<close>

definition ReadMessage ::
  "(byte list \<Rightarrow> bool \<times> 'm) \<Rightarrow> byte list \<Rightarrow> error + ('m \<times> byte list) option" where
  "ReadMessage parse input =
     (case ReadLittleEndian32 input of
        None \<Rightarrow> Inr None
      | Some (message_size, input1) \<Rightarrow>
          (case ReadRaw (sint message_size) input1 of
             Inl e \<Rightarrow> Inl e
           | Inr None \<Rightarrow> Inr None
           | Inr (Some (buffer, input2)) \<Rightarrow>
               (let (parsed, message) = parse buffer in Inr (Some (message, input2)))))"

lemma ReadMessage_consumes:
  "ReadMessage parse input = Inr (Some (message, rest)) \<Longrightarrow> length rest < length input"
  by (auto simp: ReadMessage_def ReadLittleEndian32_def ReadRaw_def
      split: list.splits option.splits prod.splits if_splits sum.splits)

text \<open>
  The loop \<^verbatim>\<open>while (ReadMessage(&queue_submission, &coded_input)) { ... emplace_back ... }\<close>
  of \<^verbatim>\<open>SenderThread\<close>. Every successful read consumes at least the four bytes of the
  length, so the loop terminates: with the handler when a read returns false, with the
  error when a read crashes.
\<close>

function drain_loop ::
  "(byte list \<Rightarrow> bool \<times> 'm) \<Rightarrow> byte list \<Rightarrow> 'm LinuxTracingHandler
     \<Rightarrow> error + 'm LinuxTracingHandler" where
  "drain_loop parse input h =
     (case ReadMessage parse input of
        Inl e \<Rightarrow> Inl e
      | Inr None \<Rightarrow> Inr h
      | Inr (Some (queue_submission, rest)) \<Rightarrow>
          drain_loop parse rest (emplace_back (gpu_queue_submission queue_submission) h))"
  by pat_completeness auto
termination
  by (relation "measure (\<lambda>(parse, input, h). length input)")
     (auto dest: ReadMessage_consumes)

declare drain_loop.simps [simp del]

definition ifstream_open :: "side_file \<Rightarrow> byte list option" where
  "ifstream_open file = (case file of Contents bytes \<Rightarrow> Some bytes | _ \<Rightarrow> None)"

section \<open>The worker and the lifecycle\<close>

text \<open>
  The condition of \<^verbatim>\<open>LockWhenWithTimeout\<close>. The wait returns when the condition holds or
  when \<^verbatim>\<open>kSendTimeInterval\<close> (20 ms) has passed. The model has no clock: whether the timeout
  has passed is an input of the step that lets the worker run.
\<close>

definition kSendEventCountInterval :: nat where
  "kSendEventCountInterval = 5000"

definition sender_condition :: "'m LinuxTracingHandler \<Rightarrow> bool" where
  "sender_condition h \<longleftrightarrow> length (event_buffer h) \<ge> kSendEventCountInterval \<or> \<not> tracer h"

text \<open>
  One iteration of the loop of \<^verbatim>\<open>SenderThread\<close>, from the return of the wait to the call
  of \<^verbatim>\<open>ProcessEvents\<close>. The first component is the local \<^verbatim>\<open>stopped\<close>. The file is opened
  only when the tracer handle is null; \<^verbatim>\<open>std::remove\<close>, whose result the source drops, is
  taken to remove the file. When the drain crashes nothing after it happens: the buffer is
  not passed to \<^verbatim>\<open>ProcessEvents\<close> and the file stays.
\<close>

definition SenderThread_iteration ::
  "(byte list \<Rightarrow> bool \<times> 'm) \<Rightarrow> 'm LinuxTracingHandler
     \<Rightarrow> error + bool \<times> 'm LinuxTracingHandler" where
  "SenderThread_iteration parse h =
     (let stopped = \<not> tracer h in
      case (if \<not> tracer h then
              (case ifstream_open (orbit_test_file h) of
                 Some bytes \<Rightarrow>
                   (case drain_loop parse bytes h of
                      Inl e \<Rightarrow> Inl e
                    | Inr drained \<Rightarrow> Inr (drained\<lparr>orbit_test_file := Absent\<rparr>))
               | None \<Rightarrow> Inr h)
            else Inr h) of
        Inl e \<Rightarrow> Inl e
      | Inr h1 \<Rightarrow>
          (let buffered_events = event_buffer h1;
               h2 = h1\<lparr>event_buffer := []\<rparr>
           in Inr (stopped, h2\<lparr>ProcessEvents_calls := ProcessEvents_calls h2 @ [buffered_events]\<rparr>)))"

text \<open>
  \<^verbatim>\<open>Start\<close>; its argument is \<^verbatim>\<open>capture_options.enable_introspection()\<close>. The spans of the
  introspection listener arrive as calls of \<^verbatim>\<open>OnIntrospectionScope\<close>.
\<close>

definition Start :: "bool \<Rightarrow> 'm LinuxTracingHandler \<Rightarrow> error + 'm LinuxTracingHandler" where
  "Start enable_introspection h =
     (if tracer h then Inl CHECK_failed
      else if sender_thread h then Inl CHECK_failed
      else Inr (h\<lparr>tracer := True, sender_thread := True,
                  orbit_tracing_listener := enable_introspection \<or> orbit_tracing_listener h\<rparr>))"

text \<open>
  \<^verbatim>\<open>Stop\<close>: after \<^verbatim>\<open>tracer_.reset()\<close> the condition of the worker holds, its next iteration is
  its last, and \<^verbatim>\<open>join\<close> returns once that iteration has called \<^verbatim>\<open>ProcessEvents\<close>.
\<close>

definition Stop ::
  "(byte list \<Rightarrow> bool \<times> 'm) \<Rightarrow> 'm LinuxTracingHandler \<Rightarrow> error + 'm LinuxTracingHandler" where
  "Stop parse h =
     (if \<not> tracer h then Inl CHECK_failed
      else if \<not> sender_thread h then Inl CHECK_failed
      else
        case SenderThread_iteration parse (h\<lparr>tracer := False\<rparr>) of
          Inl e \<Rightarrow> Inl e
        | Inr (stopped, h1) \<Rightarrow> Inr (h1\<lparr>sender_thread := False\<rparr>))"

section \<open>Sequences of calls\<close>

text \<open>
  What can happen to a handler, one step at a time: the lifecycle calls, the nine callbacks,
  the three interning operations called on their own (the returned key is dropped), the
  worker being scheduled (it runs an iteration when its wait returns: the condition holds
  or, the argument of the step, the timeout has passed), and the external process rewriting
  the side-channel file. Calls are taken one after the other; what
  happens between the critical sections of two overlapping calls is not part of this model.
\<close>

datatype 'm call =
    Call_Start bool
  | Call_Stop
  | Worker_iteration bool
  | External_write side_file
  | Call_OnSchedulingSlice 'm
  | Call_OnCallstackSample "'m CallstackSample"
  | Call_OnFunctionCall 'm
  | Call_OnIntrospectionScope 'm
  | Call_OnGpuJob "'m GpuJob"
  | Call_OnThreadName 'm
  | Call_OnThreadStateSlice 'm
  | Call_OnAddressInfo "'m AddressInfo"
  | Call_OnTracepointEvent "'m TracepointEvent"
  | Call_InternCallstackIfNecessaryAndGetKey Callstack
  | Call_InternStringIfNecessaryAndGetKey string
  | Call_InternTracepointInfoIfNecessaryAndGetKey TracepointInfo

text \<open>The three library functions the handler depends on.\<close>

record 'm library =
  std_hash :: "string \<Rightarrow> u64"
  llvm_demangle :: "string \<Rightarrow> string"
  ParseFromArray :: "byte list \<Rightarrow> bool \<times> 'm"

fun perform ::
  "'m library \<Rightarrow> 'm call \<Rightarrow> 'm LinuxTracingHandler \<Rightarrow> error + 'm LinuxTracingHandler" where
  "perform lib (Call_Start enable_introspection) h = Start enable_introspection h"
| "perform lib Call_Stop h = Stop (ParseFromArray lib) h"
| "perform lib (Worker_iteration timed_out) h =
     (if sender_thread h \<and> (sender_condition h \<or> timed_out)
      then (case SenderThread_iteration (ParseFromArray lib) h of
              Inl e \<Rightarrow> Inl e
            | Inr (stopped, h') \<Rightarrow> Inr h')
      else Inr h)"
| "perform lib (External_write file) h = Inr (h\<lparr>orbit_test_file := file\<rparr>)"
| "perform lib (Call_OnSchedulingSlice x) h = OnSchedulingSlice x h"
| "perform lib (Call_OnCallstackSample x) h = OnCallstackSample x h"
| "perform lib (Call_OnFunctionCall x) h = OnFunctionCall x h"
| "perform lib (Call_OnIntrospectionScope x) h = OnIntrospectionScope x h"
| "perform lib (Call_OnGpuJob x) h = OnGpuJob (std_hash lib) x h"
| "perform lib (Call_OnThreadName x) h = OnThreadName x h"
| "perform lib (Call_OnThreadStateSlice x) h = OnThreadStateSlice x h"
| "perform lib (Call_OnAddressInfo x) h = OnAddressInfo (std_hash lib) (llvm_demangle lib) x h"
| "perform lib (Call_OnTracepointEvent x) h = OnTracepointEvent (std_hash lib) x h"
| "perform lib (Call_InternCallstackIfNecessaryAndGetKey x) h =
     Inr (snd (InternCallstackIfNecessaryAndGetKey x h))"
| "perform lib (Call_InternStringIfNecessaryAndGetKey x) h =
     Inr (snd (InternStringIfNecessaryAndGetKey (std_hash lib) x h))"
| "perform lib (Call_InternTracepointInfoIfNecessaryAndGetKey x) h =
     Inr (snd (InternTracepointInfoIfNecessaryAndGetKey (std_hash lib) x h))"

fun run ::
  "'m library \<Rightarrow> 'm call list \<Rightarrow> 'm LinuxTracingHandler \<Rightarrow> error + 'm LinuxTracingHandler" where
  "run lib [] h = Inr h"
| "run lib (c # cs) h = (case perform lib c h of Inl e \<Rightarrow> Inl e | Inr h' \<Rightarrow> run lib cs h')"

section \<open>The side-channel file format\<close>

text \<open>
  What the external process writes: each record is the length of its payload as four
  little-endian bytes, then the payload. A file is the concatenation of its records.
\<close>

definition le32 :: "u32 \<Rightarrow> byte list" where
  "le32 w = [ucast w, ucast (drop_bit 8 w), ucast (drop_bit 16 w), ucast (drop_bit 24 w)]"

definition record_bytes :: "byte list \<Rightarrow> byte list" where
  "record_bytes payload = le32 (word_of_nat (length payload)) @ payload"

text \<open>The events the drain makes of a list of payloads: the decoded message of each, in order.\<close>

definition queue_submissions ::
  "(byte list \<Rightarrow> bool \<times> 'm) \<Rightarrow> byte list list \<Rightarrow> 'm CaptureEvent list" where
  "queue_submissions parse payloads = map (\<lambda>p. gpu_queue_submission (snd (parse p))) payloads"

fun emplace_all ::
  "'m CaptureEvent list \<Rightarrow> 'm LinuxTracingHandler \<Rightarrow> 'm LinuxTracingHandler" where
  "emplace_all [] h = h"
| "emplace_all (e # es) h = emplace_all es (emplace_back e h)"

section \<open>Intern records and references to them\<close>

text \<open>
  The three intern domains, the key an interned-payload event registers, and the keys a
  data-bearing event carries in place of its payloads.
\<close>

datatype domain = string_domain | callstack_domain | tracepoint_domain

fun interned_key :: "'m CaptureEvent \<Rightarrow> (domain \<times> u64) option" where
  "interned_key (interned_string key str) = Some (string_domain, key)"
| "interned_key (interned_callstack key callstack) = Some (callstack_domain, key)"
| "interned_key (interned_tracepoint_info key info) = Some (tracepoint_domain, key)"
| "interned_key _ = None"

fun string_key_of :: "string_or_key \<Rightarrow> (domain \<times> u64) list" where
  "string_key_of (kStringKey key) = [(string_domain, key)]"
| "string_key_of _ = []"

fun referenced_keys :: "'m CaptureEvent \<Rightarrow> (domain \<times> u64) list" where
  "referenced_keys (callstack_sample sample) =
     (case callstack_or_key sample of kCallstackKey key \<Rightarrow> [(callstack_domain, key)] | _ \<Rightarrow> [])"
| "referenced_keys (gpu_job job) = string_key_of (timeline_or_key job)"
| "referenced_keys (address_info info) =
     string_key_of (function_name_or_key info) @ string_key_of (map_name_or_key info)"
| "referenced_keys (tracepoint_event ev) =
     (case tracepoint_info_or_key ev of
        kTracepointInfoKey key \<Rightarrow> [(tracepoint_domain, key)] | _ \<Rightarrow> [])"
| "referenced_keys _ = []"

definition interned_count :: "domain \<Rightarrow> u64 \<Rightarrow> 'm CaptureEvent list \<Rightarrow> nat" where
  "interned_count d key events = length (filter (\<lambda>e. interned_key e = Some (d, key)) events)"

fun keys_sent :: "domain \<Rightarrow> 'm LinuxTracingHandler \<Rightarrow> u64 set" where
  "keys_sent string_domain h = string_keys_sent h"
| "keys_sent callstack_domain h = callstack_keys_sent h"
| "keys_sent tracepoint_domain h = tracepoint_keys_sent h"

text \<open>
  The invariant of the intern tables: the interned-payload events appended so far with a
  given key of a given domain number one when the key is marked sent and none when it is not.
\<close>

definition sent_once :: "'m LinuxTracingHandler \<Rightarrow> bool" where
  "sent_once h \<longleftrightarrow>
     (\<forall>d k. interned_count d k (appended h) = (if k \<in> keys_sent d h then 1 else 0))"

text \<open>
  The invariant of the buffer: the batches handed to \<^verbatim>\<open>ProcessEvents\<close> so far, followed by
  the events still in the buffer, are the events appended so far, in that order.
\<close>

definition nothing_lost :: "'m LinuxTracingHandler \<Rightarrow> bool" where
  "nothing_lost h \<longleftrightarrow> concat (ProcessEvents_calls h) @ event_buffer h = appended h"

text \<open>
  Every key carried by an event of the log is registered by an interned-payload event at an
  earlier position of the log.
\<close>

definition references_follow_interns :: "'m CaptureEvent list \<Rightarrow> bool" where
  "references_follow_interns log \<longleftrightarrow>
     (\<forall>j<length log. \<forall>dk\<in>set (referenced_keys (log ! j)).
        \<exists>i<j. interned_key (log ! i) = Some dk)"

section \<open>Stand-ins for the library functions, for concrete runs\<close>

text \<open>
  A decoder that keeps the bytes as the message and rejects a buffer that starts with the
  byte 255.
\<close>

definition toy_parse :: "byte list \<Rightarrow> bool \<times> byte list" where
  "toy_parse buffer = (case buffer of [] \<Rightarrow> (True, []) | tag # _ \<Rightarrow> (tag \<noteq> 255, buffer))"

text \<open>
  A string hash in the style of \<^verbatim>\<open>ComputeCallstackKey\<close> (seed 7, multiplier 31 over the
  character codes), and a demangler that knows one mangled name and returns every other
  name unchanged, as \<^verbatim>\<open>llvm::demangle\<close> does for names that are not mangled.
\<close>

definition toy_hash :: "string \<Rightarrow> u64" where
  "toy_hash str = foldl (\<lambda>key c. 31 * key + of_char c) 7 str"

definition toy_demangle :: "string \<Rightarrow> string" where
  "toy_demangle str = (if str = ''_Z3foo'' then ''foo'' else str)"

definition toy_library :: "(byte list) library" where
  "toy_library = \<lparr>std_hash = toy_hash, llvm_demangle = toy_demangle, ParseFromArray = toy_parse\<rparr>"

text \<open>
  A session for concrete runs: two samples of one call stack, a GPU job, an address whose
  function name is mangled and whose map name is the timeline of the GPU job, a tracepoint
  event, one iteration of the worker in between, and one record in the side-channel file
  when the session is stopped.
\<close>

definition sample_calls :: "(byte list) call list" where
  "sample_calls =
     [Call_Start False,
      Call_OnCallstackSample
        \<lparr>callstack_sample_fields = [1], callstack_or_key = kCallstack \<lparr>pcs = [10, 20, 30]\<rparr>\<rparr>,
      Call_OnGpuJob \<lparr>gpu_job_fields = [2], timeline_or_key = kString ''gfx''\<rparr>,
      Worker_iteration True,
      Call_OnCallstackSample
        \<lparr>callstack_sample_fields = [3], callstack_or_key = kCallstack \<lparr>pcs = [10, 20, 30]\<rparr>\<rparr>,
      Call_OnAddressInfo
        \<lparr>absolute_address = 4096, address_info_fields = [4],
         function_name_or_key = kString ''_Z3foo'', map_name_or_key = kString ''gfx''\<rparr>,
      Call_OnTracepointEvent
        \<lparr>tracepoint_event_fields = [5],
         tracepoint_info_or_key = kTracepointInfo \<lparr>category = ''sched'', name = ''switch''\<rparr>\<rparr>,
      External_write (Contents [3, 0, 0, 0, 97, 98, 99]),
      Call_Stop]"

definition sample_first_batch :: "(byte list) CaptureEvent list" where
  "sample_first_batch =
     [interned_callstack 516707 \<lparr>pcs = [10, 20, 30]\<rparr>,
      callstack_sample \<lparr>callstack_sample_fields = [1], callstack_or_key = kCallstackKey 516707\<rparr>,
      interned_string 310802 ''gfx'',
      gpu_job \<lparr>gpu_job_fields = [2], timeline_or_key = kStringKey 310802\<rparr>]"

definition sample_last_batch :: "(byte list) CaptureEvent list" where
  "sample_last_batch =
     [callstack_sample \<lparr>callstack_sample_fields = [3], callstack_or_key = kCallstackKey 516707\<rparr>,
      interned_string 310111 ''foo'',
      address_info
        \<lparr>absolute_address = 4096, address_info_fields = [4],
         function_name_or_key = kStringKey 310111, map_name_or_key = kStringKey 310802\<rparr>,
      interned_tracepoint_info 8519596198859113182 \<lparr>category = ''sched'', name = ''switch''\<rparr>,
      tracepoint_event
        \<lparr>tracepoint_event_fields = [5],
         tracepoint_info_or_key = kTracepointInfoKey 8519596198859113182\<rparr>,
      gpu_queue_submission [97, 98, 99]]"

definition sample_final :: "(byte list) LinuxTracingHandler" where
  "sample_final =
     \<lparr>tracer = False, sender_thread = False, orbit_tracing_listener = False,
      event_buffer = [], addresses_seen = {4096}, callstack_keys_sent = {516707},
      string_keys_sent = {310111, 310802}, tracepoint_keys_sent = {8519596198859113182},
      ProcessEvents_calls = [sample_first_batch, sample_last_batch],
      orbit_test_file = Absent,
      appended = sample_first_batch @ sample_last_batch\<rparr>"

text \<open>Two address-info payloads for concrete runs, and the handler after the first.\<close>

definition first_address_info :: "(byte list) AddressInfo" where
  "first_address_info =
     \<lparr>absolute_address = 4096, address_info_fields = [4],
      function_name_or_key = kString ''_Z3foo'', map_name_or_key = kString ''gfx''\<rparr>"

definition after_first_address :: "(byte list) LinuxTracingHandler" where
  "after_first_address =
     (new_LinuxTracingHandler Absent)
       \<lparr>event_buffer :=
          [interned_string 310111 ''foo'', interned_string 310802 ''gfx'',
           address_info (first_address_info\<lparr>function_name_or_key := kStringKey 310111,
                                             map_name_or_key := kStringKey 310802\<rparr>)],
        addresses_seen := {4096},
        string_keys_sent := {310111, 310802},
        appended :=
          [interned_string 310111 ''foo'', interned_string 310802 ''gfx'',
           address_info (first_address_info\<lparr>function_name_or_key := kStringKey 310111,
                                             map_name_or_key := kStringKey 310802\<rparr>)]\<rparr>"

definition second_address_info :: "(byte list) AddressInfo" where
  "second_address_info =
     \<lparr>absolute_address = 8192, address_info_fields = [5],
      function_name_or_key = kString ''foo'', map_name_or_key = kString ''gfx''\<rparr>"

section \<open>Callstack key\<close>

lemma ComputeCallstackKey_loop_foldl:
  "ComputeCallstackKey_loop key ps = foldl (\<lambda>key pc. 31 * key + pc) key ps"
  by (induction ps arbitrary: key) simp_all

lemma ComputeCallstackKey_loop_append:
  "ComputeCallstackKey_loop key (ps @ [pc]) = 31 * ComputeCallstackKey_loop key ps + pc"
  by (induction ps arbitrary: key) simp_all

text \<open>
  The key is the polynomial \<open>17 * 31 ^ n + pc\<^sub>0 * 31 ^ (n - 1) + ... + pc\<^sub>n\<^sub>-\<^sub>1\<close>
  in the ring of 64-bit words.
\<close>

lemma ComputeCallstackKey_loop_polynomial:
  "ComputeCallstackKey_loop key ps =
     key * 31 ^ length ps + (\<Sum>i<length ps. ps ! i * 31 ^ (length ps - 1 - i))"
proof (induction ps rule: rev_induct)
  case Nil
  show ?case by simp
next
  case (snoc pc ps)
  have "(\<Sum>i<length ps. (ps @ [pc]) ! i * 31 ^ (length ps - i)) =
        (\<Sum>i<length ps. 31 * (ps ! i * 31 ^ (length ps - 1 - i)))"
  proof (rule sum.cong)
    fix i assume "i \<in> {..<length ps}"
    then have i: "i < length ps" by simp
    then have "length ps - i = Suc (length ps - 1 - i)" by arith
    with i show "(ps @ [pc]) ! i * 31 ^ (length ps - i) = 31 * (ps ! i * 31 ^ (length ps - 1 - i))"
      by (simp add: nth_append)
  qed simp
  then have "(\<Sum>i<length ps. (ps @ [pc]) ! i * 31 ^ (length ps - i)) =
        31 * (\<Sum>i<length ps. ps ! i * 31 ^ (length ps - 1 - i))"
    by (simp add: sum_distrib_left)
  with snoc show ?case
    by (simp add: ComputeCallstackKey_loop_append algebra_simps)
qed

text \<open>
  C5. The callstack intern key is the seed 17 folded with \<open>key \<mapsto> 31 * key + pc\<close> over the
  program counters in order, in wrapping 64-bit arithmetic, which is the polynomial above.
  Equal pc sequences give equal keys; the stacks \<open>[10, 20, 30]\<close> and \<open>[30, 20, 10]\<close> get
  the different keys 516707 and 535907.
\<close>

theorem callstack_key_polynomial_hash:
  "ComputeCallstackKey c = spec_callstack_hash (pcs c)
   \<and> ComputeCallstackKey c =
       17 * 31 ^ length (pcs c) + (\<Sum>i<length (pcs c). pcs c ! i * 31 ^ (length (pcs c) - 1 - i))
   \<and> (pcs c = pcs c' \<longrightarrow> ComputeCallstackKey c = ComputeCallstackKey c')
   \<and> ComputeCallstackKey \<lparr>pcs = [10, 20, 30]\<rparr> = 516707
   \<and> ComputeCallstackKey \<lparr>pcs = [30, 20, 10]\<rparr> = 535907
   \<and> ComputeCallstackKey \<lparr>pcs = [10, 20, 30]\<rparr> \<noteq> ComputeCallstackKey \<lparr>pcs = [30, 20, 10]\<rparr>"
proof -
  have "ComputeCallstackKey c = spec_callstack_hash (pcs c)"
    by (simp add: ComputeCallstackKey_def spec_callstack_hash_def ComputeCallstackKey_loop_foldl)
  moreover have "ComputeCallstackKey c =
       17 * 31 ^ length (pcs c) + (\<Sum>i<length (pcs c). pcs c ! i * 31 ^ (length (pcs c) - 1 - i))"
    unfolding ComputeCallstackKey_def by (rule ComputeCallstackKey_loop_polynomial)
  moreover have "pcs c = pcs c' \<longrightarrow> ComputeCallstackKey c = ComputeCallstackKey c'"
    by (simp add: ComputeCallstackKey_def)
  moreover have "ComputeCallstackKey \<lparr>pcs = [10, 20, 30]\<rparr> = 516707"
    by (simp add: ComputeCallstackKey_def)
  moreover have "ComputeCallstackKey \<lparr>pcs = [30, 20, 10]\<rparr> = 535907"
    by (simp add: ComputeCallstackKey_def)
  ultimately show ?thesis by simp
qed

theorem callstack_key_polynomial_hash_witness:
  "pcs \<lparr>pcs = [10, 20, 30]\<rparr> = pcs \<lparr>pcs = [10, 20, 30]\<rparr>
   \<and> ComputeCallstackKey \<lparr>pcs = [10, 20, 30]\<rparr> = ComputeCallstackKey \<lparr>pcs = [10, 20, 30]\<rparr>
   \<and> ComputeCallstackKey \<lparr>pcs = [10, 20, 30]\<rparr> = spec_callstack_hash [10, 20, 30]
   \<and> spec_callstack_hash [10, 20, 30] = 516707"
  using callstack_key_polynomial_hash [of "\<lparr>pcs = [10, 20, 30]\<rparr>" "\<lparr>pcs = [10, 20, 30]\<rparr>"]
  by (simp add: spec_callstack_hash_def)

section \<open>The drain of the side-channel file\<close>

lemma le32_value:
  "(ucast (ucast w :: byte) OR push_bit 8 (ucast (ucast (drop_bit 8 w) :: byte))
     OR push_bit 16 (ucast (ucast (drop_bit 16 w) :: byte))
     OR push_bit 24 (ucast (ucast (drop_bit 24 w) :: byte))) = (w :: u32)"
proof (rule bit_word_eqI)
  fix n :: nat
  assume "n < LENGTH(32)"
  then have n: "n < 32" by simp
  consider "n < 8" | "8 \<le> n" "n < 16" | "16 \<le> n" "n < 24" | "24 \<le> n"
    by linarith
  then show "bit (ucast (ucast w :: byte) OR push_bit 8 (ucast (ucast (drop_bit 8 w) :: byte))
     OR push_bit 16 (ucast (ucast (drop_bit 16 w) :: byte))
     OR push_bit 24 (ucast (ucast (drop_bit 24 w) :: byte)) :: u32) n = bit w n"
    using n by cases (auto simp: bit_simps)
qed

lemma ReadLittleEndian32_le32: "ReadLittleEndian32 (le32 w @ rest) = Some (w, rest)"
  by (simp add: ReadLittleEndian32_def le32_def le32_value)

lemma sint_short_length:
  assumes "n < 2 ^ 31"
  shows "sint (word_of_nat n :: u32) = int n"
proof -
  from assms have "int n < 2 ^ 31" by (simp flip: of_nat_less_iff)
  then have "signed_take_bit 31 (int n) = int n"
    by (intro signed_take_bit_int_eq_self) simp_all
  then show ?thesis by (simp add: signed_of_nat)
qed

lemma sint_long_length:
  assumes "2 ^ 31 \<le> n" and "n < 2 ^ 32"
  shows "sint (word_of_nat n :: u32) < 0"
proof -
  from assms(1) have "(2 :: int) ^ 31 \<le> int n"
    by (simp flip: of_nat_le_iff)
  then have "signed_take_bit 31 (int n) \<le> int n - 2 ^ Suc 31"
    by (rule signed_take_bit_int_less_eq)
  then have "signed_take_bit 31 (int n) \<le> int n - 4294967296"
    by simp
  moreover from assms(2) have "int n < 4294967296"
    by (simp flip: of_nat_less_iff)
  moreover have "sint (word_of_nat n :: u32) = signed_take_bit 31 (int n)"
    by (simp add: signed_of_nat)
  ultimately show ?thesis
    by linarith
qed

lemma ReadMessage_record:
  assumes "length payload < 2 ^ 31"
  shows "ReadMessage parse (record_bytes payload @ rest) = Inr (Some (snd (parse payload), rest))"
  using assms
  by (simp add: ReadMessage_def record_bytes_def ReadLittleEndian32_le32 ReadRaw_def
      sint_short_length split: prod.splits)

lemma length_record_bytes: "length (record_bytes p) = 4 + length p"
  by (simp add: record_bytes_def le32_def)

lemma ReadLittleEndian32_short: "length input < 4 \<Longrightarrow> ReadLittleEndian32 input = None"
  by (auto simp: ReadLittleEndian32_def split: list.splits)

lemma take_record_bytes:
  assumes "4 \<le> m"
  shows "take m (record_bytes payload) =
      le32 (word_of_nat (length payload)) @ take (m - 4) payload"
proof -
  have "length (le32 (word_of_nat (length payload))) = 4"
    by (simp add: le32_def)
  with assms show ?thesis
    unfolding record_bytes_def by simp
qed

lemma ReadMessage_truncated:
  assumes "length payload < 2 ^ 31" and "m < length (record_bytes payload)"
  shows "ReadMessage parse (take m (record_bytes payload)) = Inr None"
proof (cases "m < 4")
  case True
  then show ?thesis by (simp add: ReadMessage_def ReadLittleEndian32_short)
next
  case False
  then have "take m (record_bytes payload) =
      le32 (word_of_nat (length payload)) @ take (m - 4) payload"
    by (simp add: take_record_bytes)
  moreover from assms(2) False have "m - 4 < length payload"
    by (simp add: length_record_bytes)
  ultimately show ?thesis
    using assms(1)
    by (simp add: ReadMessage_def ReadLittleEndian32_le32 ReadRaw_def sint_short_length)
qed

text \<open>
  A length of \<open>2 ^ 31\<close> or more: once its four bytes are read, \<^verbatim>\<open>ReadRaw\<close> is called
  with a negative size, whatever follows the length.
\<close>

lemma ReadMessage_negative_length:
  assumes "sint w < 0"
  shows "ReadMessage parse (le32 w @ rest) = Inl ReadRaw_negative_size"
  using assms by (simp add: ReadMessage_def ReadLittleEndian32_le32 ReadRaw_def)

lemma ReadMessage_long_record:
  assumes "2 ^ 31 \<le> length payload" and "length payload < 2 ^ 32" and "4 \<le> m"
  shows "ReadMessage parse (take m (record_bytes payload) @ rest) = Inl ReadRaw_negative_size"
  using assms
  by (simp add: take_record_bytes ReadMessage_negative_length sint_long_length)

lemma drain_loop_stop:
  "ReadMessage parse input = Inr None \<Longrightarrow> drain_loop parse input h = Inr h"
  by (subst drain_loop.simps) simp

lemma drain_loop_step:
  "ReadMessage parse input = Inr (Some (message, rest)) \<Longrightarrow>
     drain_loop parse input h = drain_loop parse rest (emplace_back (gpu_queue_submission message) h)"
  by (subst drain_loop.simps) simp

lemma drain_loop_crash:
  "ReadMessage parse input = Inl e \<Longrightarrow> drain_loop parse input h = Inl e"
  by (subst drain_loop.simps) simp

lemma emplace_all_eq:
  "emplace_all es h = h\<lparr>event_buffer := event_buffer h @ es, appended := appended h @ es\<rparr>"
  by (induction es arbitrary: h) (simp_all add: emplace_back_def)

lemma drain_loop_records:
  assumes "\<forall>p \<in> set payloads. length p < 2 ^ 31"
  shows "drain_loop parse (concat (map record_bytes payloads) @ tail) h =
         drain_loop parse tail
           (emplace_all (map (\<lambda>p. gpu_queue_submission (snd (parse p))) payloads) h)"
  using assms
proof (induction payloads arbitrary: h)
  case Nil
  show ?case by simp
next
  case (Cons p ps)
  then have "length p < 2 ^ 31" by simp
  then have "ReadMessage parse (record_bytes p @ concat (map record_bytes ps) @ tail) =
        Inr (Some (snd (parse p), concat (map record_bytes ps) @ tail))"
    by (rule ReadMessage_record)
  then have "drain_loop parse (concat (map record_bytes (p # ps)) @ tail) h =
      drain_loop parse (concat (map record_bytes ps) @ tail)
        (emplace_back (gpu_queue_submission (snd (parse p))) h)"
    by (simp add: drain_loop_step)
  with Cons show ?case by simp
qed

text \<open>
  The last iteration of the worker on a file whose length prefixes are all below \<open>2 ^ 31\<close>:
  complete records, possibly followed by a strict prefix of one more record. It appends one
  queue-submission event per complete record, in file order, passes the buffer with them
  to \<^verbatim>\<open>ProcessEvents\<close> and deletes the file. When the file is missing or cannot be opened it
  appends nothing and passes the buffer as it is.
\<close>

lemma drain_of_short_records:
  assumes "\<not> tracer h"
    and "\<forall>p \<in> set payloads. length p < 2 ^ 31"
    and "length final < 2 ^ 31"
    and "m < length (record_bytes final)"
  shows "(orbit_test_file h = Contents (concat (map record_bytes payloads) @ take m (record_bytes final))
          \<longrightarrow> SenderThread_iteration parse h =
            Inr (True, h\<lparr>event_buffer := [],
                     ProcessEvents_calls := ProcessEvents_calls h @
                       [event_buffer h @ queue_submissions parse payloads],
                     orbit_test_file := Absent,
                     appended := appended h @ queue_submissions parse payloads\<rparr>))
       \<and> (orbit_test_file h = Absent \<or> orbit_test_file h = Unopenable
          \<longrightarrow> SenderThread_iteration parse h =
            Inr (True, h\<lparr>event_buffer := [],
                     ProcessEvents_calls := ProcessEvents_calls h @ [event_buffer h]\<rparr>))"
proof -
  have "drain_loop parse (concat (map record_bytes payloads) @ take m (record_bytes final)) h =
        Inr (emplace_all (queue_submissions parse payloads) h)"
    using assms(2-4)
    by (simp add: drain_loop_records ReadMessage_truncated drain_loop_stop queue_submissions_def)
  then show ?thesis
    using assms(1)
    by (auto simp: SenderThread_iteration_def ifstream_open_def emplace_all_eq)
qed

lemma drain_of_short_records_examples:
  "SenderThread_iteration toy_parse
     (new_LinuxTracingHandler (Contents [3, 0, 0, 0, 97, 98, 99, 4, 0, 0, 0, 119, 120, 121, 122])) =
     Inr (True, (new_LinuxTracingHandler Absent)
        \<lparr>ProcessEvents_calls :=
           [[gpu_queue_submission [97, 98, 99], gpu_queue_submission [119, 120, 121, 122]]],
         appended := [gpu_queue_submission [97, 98, 99], gpu_queue_submission [119, 120, 121, 122]]\<rparr>)
   \<and> SenderThread_iteration toy_parse
     (new_LinuxTracingHandler (Contents [3, 0, 0, 0, 97, 98, 99, 10, 0, 0, 0, 1, 2, 3, 4])) =
     Inr (True, (new_LinuxTracingHandler Absent)
        \<lparr>ProcessEvents_calls := [[gpu_queue_submission [97, 98, 99]]],
         appended := [gpu_queue_submission [97, 98, 99]]\<rparr>)
   \<and> SenderThread_iteration toy_parse (new_LinuxTracingHandler Unopenable) =
     Inr (True, (new_LinuxTracingHandler Unopenable)\<lparr>ProcessEvents_calls := [[]]\<rparr>)"
  using
    drain_of_short_records [of "new_LinuxTracingHandler (Contents [3, 0, 0, 0, 97, 98, 99, 4, 0, 0, 0, 119, 120, 121, 122])"
      "[[97, 98, 99], [119, 120, 121, 122]]" "[]" 0 toy_parse]
    drain_of_short_records [of "new_LinuxTracingHandler (Contents [3, 0, 0, 0, 97, 98, 99, 10, 0, 0, 0, 1, 2, 3, 4])"
      "[[97, 98, 99]]" "[1, 2, 3, 4, 5, 6, 7, 8, 9, 10]" 8 toy_parse]
    drain_of_short_records [of "new_LinuxTracingHandler Unopenable" "[]" "[]" 0 toy_parse]
  by (simp add: new_LinuxTracingHandler_def record_bytes_def le32_def queue_submissions_def
      toy_parse_def)

text \<open>
  The same iteration on a file in which a record with a length of \<open>2 ^ 31\<close> or more
  follows the complete records, cut anywhere after its length or not cut at all: the drain
  crashes at that record. The events read before it are not delivered.
\<close>

lemma drain_crashes_on_long_record:
  assumes "\<not> tracer h"
    and "\<forall>p \<in> set payloads. length p < 2 ^ 31"
    and "2 ^ 31 \<le> length final" and "length final < 2 ^ 32" and "4 \<le> m"
    and "orbit_test_file h =
           Contents (concat (map record_bytes payloads) @ take m (record_bytes final) @ rest)"
  shows "SenderThread_iteration parse h = Inl ReadRaw_negative_size"
proof -
  have "drain_loop parse
          (concat (map record_bytes payloads) @ take m (record_bytes final) @ rest) h =
        Inl ReadRaw_negative_size"
    using assms(2-5)
    by (simp add: drain_loop_records ReadMessage_long_record drain_loop_crash)
  with assms(1,6) show ?thesis
    by (simp add: SenderThread_iteration_def ifstream_open_def)
qed

text \<open>
  C4. A truncated final record does not always stop the drain. For length prefixes below
  \<open>2 ^ 31\<close> it does (\<open>drain_of_short_records\<close>). At the bytes
  \<open>00 00 00 80 01 02 03 04\<close> (a length of \<open>2 ^ 31\<close> with four bytes after it: a
  truncated final record) \<^verbatim>\<open>ReadMessage\<close> does not return false: \<^verbatim>\<open>ReadRaw\<close> is called with
  the size \<open>- 2 ^ 31\<close> and the process dies. With a complete record before those bytes
  the last iteration of the worker dies in the drain, and so does \<^verbatim>\<open>Stop\<close> at the end of a
  session: the earlier record and the buffered events are not delivered, the file is not
  deleted.
\<close>

theorem shutdown_drain_dies_on_long_length:
  "sint (2147483648 :: u32) = - 2147483648
   \<and> ReadMessage toy_parse [0, 0, 0, 128, 1, 2, 3, 4] = Inl ReadRaw_negative_size
   \<and> SenderThread_iteration toy_parse
       (new_LinuxTracingHandler
          (Contents [3, 0, 0, 0, 97, 98, 99, 0, 0, 0, 128, 1, 2, 3, 4])) =
       Inl ReadRaw_negative_size
   \<and> run toy_library
       [Call_Start False, Call_OnThreadName [7],
        External_write (Contents [3, 0, 0, 0, 97, 98, 99, 0, 0, 0, 128, 1, 2, 3, 4]),
        Call_Stop]
       (new_LinuxTracingHandler Absent) =
       Inl ReadRaw_negative_size"
proof -
  have r: "ReadMessage toy_parse [0, 0, 0, 128, 1, 2, 3, 4] = Inl ReadRaw_negative_size"
    by (simp add: ReadMessage_def ReadLittleEndian32_def ReadRaw_def)
  have "ReadMessage toy_parse [3, 0, 0, 0, 97, 98, 99, 0, 0, 0, 128, 1, 2, 3, 4] =
      Inr (Some ([97, 98, 99], [0, 0, 0, 128, 1, 2, 3, 4]))"
    by (simp add: ReadMessage_def ReadLittleEndian32_def ReadRaw_def toy_parse_def)
  with r have d: "drain_loop toy_parse [3, 0, 0, 0, 97, 98, 99, 0, 0, 0, 128, 1, 2, 3, 4] h =
      Inl ReadRaw_negative_size" for h
    by (simp add: drain_loop_step drain_loop_crash)
  have i: "SenderThread_iteration toy_parse
       (new_LinuxTracingHandler
          (Contents [3, 0, 0, 0, 97, 98, 99, 0, 0, 0, 128, 1, 2, 3, 4])) =
       Inl ReadRaw_negative_size"
    by (simp add: SenderThread_iteration_def ifstream_open_def new_LinuxTracingHandler_def d)
  have "run toy_library
       [Call_Start False, Call_OnThreadName [7],
        External_write (Contents [3, 0, 0, 0, 97, 98, 99, 0, 0, 0, 128, 1, 2, 3, 4]),
        Call_Stop]
       (new_LinuxTracingHandler Absent) =
       Inl ReadRaw_negative_size"
    by (simp add: toy_library_def new_LinuxTracingHandler_def Start_def Stop_def
        OnThreadName_def emplace_back_def SenderThread_iteration_def ifstream_open_def d)
  with r i show ?thesis by simp
qed

text \<open>
  C9. A record whose length and bytes are read (its length is below \<open>2 ^ 31\<close>, so that
  \<^verbatim>\<open>ReadRaw\<close> gets the size it is meant to get) but whose bytes do not decode
  (\<^verbatim>\<open>ParseFromArray\<close> returns false): \<^verbatim>\<open>ReadMessage\<close> returns true all the same, the
  message as the decoder left it is appended as a queue-submission event, and the loop goes
  on with the bytes after the record.
\<close>

theorem undecodable_record_is_kept:
  assumes "length payload < 2 ^ 31" and "\<not> fst (parse payload)"
  shows "ReadMessage parse (record_bytes payload @ rest) = Inr (Some (snd (parse payload), rest))
       \<and> drain_loop parse (record_bytes payload @ rest) h =
           drain_loop parse rest (emplace_back (gpu_queue_submission (snd (parse payload))) h)"
  using assms(1) by (simp add: ReadMessage_record drain_loop_step)

theorem undecodable_record_is_kept_witness:
  "length [255 :: byte] < 2 ^ 31 \<and> \<not> fst (toy_parse [255])
   \<and> ReadMessage toy_parse ([1, 0, 0, 0, 255] @ [2, 0, 0, 0, 8, 1]) =
       Inr (Some ([255], [2, 0, 0, 0, 8, 1]))
   \<and> drain_loop toy_parse ([1, 0, 0, 0, 255] @ [2, 0, 0, 0, 8, 1]) (new_LinuxTracingHandler Absent) =
       drain_loop toy_parse [2, 0, 0, 0, 8, 1]
         (emplace_back (gpu_queue_submission [255]) (new_LinuxTracingHandler Absent))
   \<and> drain_loop toy_parse ([1, 0, 0, 0, 255] @ [2, 0, 0, 0, 8, 1])
         (new_LinuxTracingHandler Absent) =
       Inr (emplace_all [gpu_queue_submission [255], gpu_queue_submission [8, 1]]
              (new_LinuxTracingHandler Absent))"
proof -
  have bad: "\<not> fst (toy_parse [255])"
    by (simp add: toy_parse_def)
  have rb: "record_bytes [255] = [1, 0, 0, 0, 255]"
    by (simp add: record_bytes_def le32_def)
  have kept: "ReadMessage toy_parse ([1, 0, 0, 0, 255] @ [2, 0, 0, 0, 8, 1]) =
       Inr (Some ([255], [2, 0, 0, 0, 8, 1]))"
    and step: "drain_loop toy_parse ([1, 0, 0, 0, 255] @ [2, 0, 0, 0, 8, 1]) h =
       drain_loop toy_parse [2, 0, 0, 0, 8, 1] (emplace_back (gpu_queue_submission [255]) h)" for h
    using undecodable_record_is_kept [of "[255]" toy_parse "[2, 0, 0, 0, 8, 1]" h] bad
    by (simp_all add: rb toy_parse_def)
  have "drain_loop toy_parse (concat (map record_bytes [[8, 1]]) @ []) h =
        drain_loop toy_parse []
          (emplace_all (map (\<lambda>p. gpu_queue_submission (snd (toy_parse p))) [[8, 1]]) h)" for h
    by (rule drain_loop_records) simp
  then have rest: "drain_loop toy_parse [2, 0, 0, 0, 8, 1] h =
      Inr (emplace_back (gpu_queue_submission [8, 1]) h)" for h
    by (simp add: record_bytes_def le32_def toy_parse_def drain_loop_stop ReadMessage_def
        ReadLittleEndian32_def)
  have "drain_loop toy_parse ([1, 0, 0, 0, 255] @ [2, 0, 0, 0, 8, 1])
         (new_LinuxTracingHandler Absent) =
       Inr (emplace_all [gpu_queue_submission [255], gpu_queue_submission [8, 1]]
              (new_LinuxTracingHandler Absent))"
    by (simp only: step rest emplace_all.simps)
  with bad kept step show ?thesis by simp
qed

section \<open>Each key is interned once\<close>

lemma drain_loop_emplaces:
  "drain_loop parse input h = Inr h' \<Longrightarrow> \<exists>ms. h' = emplace_all (map gpu_queue_submission ms) h"
proof (induction parse input h rule: drain_loop.induct)
  case (1 parse input h)
  show ?case
  proof (cases "ReadMessage parse input")
    case (Inl e)
    with "1.prems" show ?thesis by (simp add: drain_loop_crash)
  next
    case (Inr r)
    show ?thesis
    proof (cases r)
      case None
      with Inr "1.prems" have "h' = emplace_all (map gpu_queue_submission []) h"
        by (simp add: drain_loop_stop)
      then show ?thesis by blast
    next
      case (Some mr)
      obtain m rest where mr: "mr = (m, rest)" by (cases mr)
      with Inr Some "1.prems"
      have "drain_loop parse rest (emplace_back (gpu_queue_submission m) h) = Inr h'"
        by (simp add: drain_loop_step)
      with "1.IH" [OF Inr Some mr [symmetric]] obtain ms where
        "h' = emplace_all (map gpu_queue_submission ms) (emplace_back (gpu_queue_submission m) h)"
        by blast
      then have "h' = emplace_all (map gpu_queue_submission (m # ms)) h" by simp
      then show ?thesis by blast
    qed
  qed
qed

text \<open>
  An iteration of the worker that returns: the handler after the drain, if there was one,
  with its buffer moved into the call of \<^verbatim>\<open>ProcessEvents\<close>.
\<close>

lemma SenderThread_iteration_Inr:
  assumes "SenderThread_iteration parse h = Inr (stopped, h')"
  obtains h1 where
    "h1 = h \<or> (\<exists>bytes drained. drain_loop parse bytes h = Inr drained
                 \<and> h1 = drained\<lparr>orbit_test_file := Absent\<rparr>)"
    and "h' = h1\<lparr>event_buffer := [],
                  ProcessEvents_calls := ProcessEvents_calls h1 @ [event_buffer h1]\<rparr>"
  using assms
  by (auto simp: SenderThread_iteration_def Let_def
      split: if_splits option.splits sum.splits)

lemma interned_count_append [simp]:
  "interned_count d k (xs @ ys) = interned_count d k xs + interned_count d k ys"
  by (simp add: interned_count_def)

lemma interned_count_Nil [simp]: "interned_count d k [] = 0"
  by (simp add: interned_count_def)

lemma interned_count_Cons:
  "interned_count d k (e # es) = (if interned_key e = Some (d, k) then 1 else 0) + interned_count d k es"
  by (simp add: interned_count_def)

lemma interned_count_submissions [simp]:
  "interned_count d k (map gpu_queue_submission ms) = 0"
  by (induction ms) (simp_all add: interned_count_Cons)

lemma keys_sent_emplace_back [simp]: "keys_sent d (emplace_back e h) = keys_sent d h"
  by (cases d) (simp_all add: emplace_back_def)

lemma appended_emplace_back [simp]: "appended (emplace_back e h) = appended h @ [e]"
  by (simp add: emplace_back_def)

lemma event_buffer_emplace_back [simp]: "event_buffer (emplace_back e h) = event_buffer h @ [e]"
  by (simp add: emplace_back_def)

lemma sent_once_new: "sent_once (new_LinuxTracingHandler file)"
proof -
  have "keys_sent d (new_LinuxTracingHandler file :: 'a LinuxTracingHandler) = {}" for d
    by (cases d) (simp_all add: new_LinuxTracingHandler_def)
  then show ?thesis
    by (simp add: sent_once_def) (simp add: new_LinuxTracingHandler_def)
qed

lemma sent_once_cong:
  assumes "appended h' = appended h"
    and "string_keys_sent h' = string_keys_sent h"
    and "callstack_keys_sent h' = callstack_keys_sent h"
    and "tracepoint_keys_sent h' = tracepoint_keys_sent h"
  shows "sent_once h' = sent_once h"
proof -
  have "keys_sent d h' = keys_sent d h" for d
    using assms(2-4) by (cases d) simp_all
  with assms(1) show ?thesis by (simp add: sent_once_def)
qed

lemma sent_once_emplace_back:
  assumes "interned_key e = None" and "sent_once h"
  shows "sent_once (emplace_back e h)"
  using assms by (simp add: sent_once_def interned_count_Cons)

lemma sent_once_emplace_all:
  assumes "\<forall>e \<in> set es. interned_key e = None" and "sent_once h"
  shows "sent_once (emplace_all es h)"
  using assms by (induction es arbitrary: h) (simp_all add: sent_once_emplace_back)

lemma InternString_old:
  "hash str \<in> string_keys_sent h \<Longrightarrow>
     InternStringIfNecessaryAndGetKey hash str h = (hash str, h)"
  by (simp add: InternStringIfNecessaryAndGetKey_def ComputeStringKey_def Let_def)

lemma InternString_new:
  "hash str \<notin> string_keys_sent h \<Longrightarrow>
     InternStringIfNecessaryAndGetKey hash str h =
       (hash str, emplace_back (interned_string (hash str) str)
                    (h\<lparr>string_keys_sent := insert (hash str) (string_keys_sent h)\<rparr>))"
  by (simp add: InternStringIfNecessaryAndGetKey_def ComputeStringKey_def Let_def)

lemma InternCallstack_old:
  "ComputeCallstackKey c \<in> callstack_keys_sent h \<Longrightarrow>
     InternCallstackIfNecessaryAndGetKey c h = (ComputeCallstackKey c, h)"
  by (simp add: InternCallstackIfNecessaryAndGetKey_def Let_def)

lemma InternCallstack_new:
  "ComputeCallstackKey c \<notin> callstack_keys_sent h \<Longrightarrow>
     InternCallstackIfNecessaryAndGetKey c h =
       (ComputeCallstackKey c, emplace_back (interned_callstack (ComputeCallstackKey c) c)
          (h\<lparr>callstack_keys_sent := insert (ComputeCallstackKey c) (callstack_keys_sent h)\<rparr>))"
  by (simp add: InternCallstackIfNecessaryAndGetKey_def Let_def)

lemma TracepointInfo_copy [simp]:
  "\<lparr>category = category info, name = name info\<rparr> = (info :: TracepointInfo)"
  by (cases info) simp

lemma InternTracepointInfo_old:
  "hash (category info @ '':'' @ name info) \<in> tracepoint_keys_sent h \<Longrightarrow>
     InternTracepointInfoIfNecessaryAndGetKey hash info h =
       (hash (category info @ '':'' @ name info), h)"
  by (simp add: InternTracepointInfoIfNecessaryAndGetKey_def ComputeStringKey_def Let_def)

lemma InternTracepointInfo_new:
  "hash (category info @ '':'' @ name info) \<notin> tracepoint_keys_sent h \<Longrightarrow>
     InternTracepointInfoIfNecessaryAndGetKey hash info h =
       (hash (category info @ '':'' @ name info),
        emplace_back (interned_tracepoint_info (hash (category info @ '':'' @ name info)) info)
          (h\<lparr>tracepoint_keys_sent :=
               insert (hash (category info @ '':'' @ name info)) (tracepoint_keys_sent h)\<rparr>))"
  by (simp add: InternTracepointInfoIfNecessaryAndGetKey_def ComputeStringKey_def Let_def)

lemma sent_once_InternString:
  assumes "InternStringIfNecessaryAndGetKey hash str h = (key, h1)" and "sent_once h"
  shows "sent_once h1"
proof (cases "hash str \<in> string_keys_sent h")
  case True
  with assms show ?thesis by (simp add: InternString_old)
next
  case False
  with assms(1) have h1: "h1 = emplace_back (interned_string (hash str) str)
      (h\<lparr>string_keys_sent := insert (hash str) (string_keys_sent h)\<rparr>)"
    by (auto simp: InternString_new)
  have "interned_count d k (appended h1) = (if k \<in> keys_sent d h1 then 1 else 0)" for d k
    using assms(2) [unfolded sent_once_def, rule_format, of d k] False
    by (cases d) (auto simp: h1 interned_count_Cons)
  then show ?thesis by (simp add: sent_once_def)
qed

lemma sent_once_InternCallstack:
  assumes "InternCallstackIfNecessaryAndGetKey c h = (key, h1)" and "sent_once h"
  shows "sent_once h1"
proof (cases "ComputeCallstackKey c \<in> callstack_keys_sent h")
  case True
  with assms show ?thesis by (simp add: InternCallstack_old)
next
  case False
  with assms(1) have h1: "h1 = emplace_back (interned_callstack (ComputeCallstackKey c) c)
      (h\<lparr>callstack_keys_sent := insert (ComputeCallstackKey c) (callstack_keys_sent h)\<rparr>)"
    by (auto simp: InternCallstack_new)
  have "interned_count d k (appended h1) = (if k \<in> keys_sent d h1 then 1 else 0)" for d k
    using assms(2) [unfolded sent_once_def, rule_format, of d k] False
    by (cases d) (auto simp: h1 interned_count_Cons)
  then show ?thesis by (simp add: sent_once_def)
qed

lemma sent_once_InternTracepointInfo:
  assumes "InternTracepointInfoIfNecessaryAndGetKey hash info h = (key, h1)" and "sent_once h"
  shows "sent_once h1"
proof (cases "hash (category info @ '':'' @ name info) \<in> tracepoint_keys_sent h")
  case True
  with assms show ?thesis by (simp add: InternTracepointInfo_old)
next
  case False
  with assms(1) have h1: "h1 =
      emplace_back (interned_tracepoint_info (hash (category info @ '':'' @ name info)) info)
        (h\<lparr>tracepoint_keys_sent :=
             insert (hash (category info @ '':'' @ name info)) (tracepoint_keys_sent h)\<rparr>)"
    by (auto simp: InternTracepointInfo_new)
  have "interned_count d k (appended h1) = (if k \<in> keys_sent d h1 then 1 else 0)" for d k
    using assms(2) [unfolded sent_once_def, rule_format, of d k] False
    by (cases d) (auto simp: h1 interned_count_Cons)
  then show ?thesis by (simp add: sent_once_def)
qed

lemma sent_once_drain_loop:
  assumes "drain_loop parse bytes h = Inr h'" and "sent_once h"
  shows "sent_once h'"
proof -
  from assms(1) obtain ms where "h' = emplace_all (map gpu_queue_submission ms) h"
    using drain_loop_emplaces by blast
  with assms(2) show ?thesis
    by (simp add: sent_once_emplace_all)
qed

lemma sent_once_SenderThread_iteration:
  assumes "SenderThread_iteration parse h = Inr (stopped, h')" and "sent_once h"
  shows "sent_once h'"
proof -
  from assms(1) obtain h1 where
    h1: "h1 = h \<or> (\<exists>bytes drained. drain_loop parse bytes h = Inr drained
                 \<and> h1 = drained\<lparr>orbit_test_file := Absent\<rparr>)"
    and h': "h' = h1\<lparr>event_buffer := [],
                  ProcessEvents_calls := ProcessEvents_calls h1 @ [event_buffer h1]\<rparr>"
    by (rule SenderThread_iteration_Inr)
  have "sent_once (drained\<lparr>orbit_test_file := Absent\<rparr>)"
    if "drain_loop parse bytes h = Inr drained" for bytes drained
  proof -
    have "sent_once (drained\<lparr>orbit_test_file := Absent\<rparr>) = sent_once drained"
      by (rule sent_once_cong) simp_all
    with sent_once_drain_loop [OF that assms(2)] show ?thesis by simp
  qed
  with h1 assms(2) have "sent_once h1" by auto
  moreover have "sent_once h' = sent_once h1"
    unfolding h' by (rule sent_once_cong) simp_all
  ultimately show ?thesis by simp
qed

lemma sent_once_Start:
  assumes "Start b h = Inr h'" and "sent_once h"
  shows "sent_once h'"
proof -
  from assms(1) have "h' = h\<lparr>tracer := True, sender_thread := True,
                  orbit_tracing_listener := b \<or> orbit_tracing_listener h\<rparr>"
    by (auto simp: Start_def split: if_splits)
  then have "sent_once h' = sent_once h"
    by (intro sent_once_cong) simp_all
  with assms(2) show ?thesis by simp
qed

lemma sent_once_Stop:
  assumes "Stop parse h = Inr h'" and "sent_once h"
  shows "sent_once h'"
proof -
  from assms(1) obtain stopped h1 where
    i: "SenderThread_iteration parse (h\<lparr>tracer := False\<rparr>) = Inr (stopped, h1)"
    and h': "h' = h1\<lparr>sender_thread := False\<rparr>"
    by (auto simp: Stop_def split: if_splits sum.splits)
  have "sent_once (h\<lparr>tracer := False\<rparr>) = sent_once h"
    by (rule sent_once_cong) simp_all
  with assms(2) have "sent_once (h\<lparr>tracer := False\<rparr>)" by simp
  with i have "sent_once h1" by (rule sent_once_SenderThread_iteration)
  moreover have "sent_once h' = sent_once h1"
    unfolding h' by (rule sent_once_cong) simp_all
  ultimately show ?thesis by simp
qed

lemma sent_once_OnAddressInfo:
  assumes "OnAddressInfo hash demangle x h = Inr h'" and "sent_once h"
  shows "sent_once h'"
proof (cases "absolute_address x \<in> addresses_seen h")
  case True
  with assms show ?thesis by (simp add: OnAddressInfo_def)
next
  case False
  define h0 where "h0 = h\<lparr>addresses_seen := insert (absolute_address x) (addresses_seen h)\<rparr>"
  have "sent_once h0 = sent_once h"
    unfolding h0_def by (rule sent_once_cong) simp_all
  with assms(2) have h0: "sent_once h0" by simp
  from assms(1) False obtain fn mn where
    fn: "function_name_or_key x = kString fn" and mn: "map_name_or_key x = kString mn"
    by (auto simp: OnAddressInfo_def Let_def split: string_or_key.splits prod.splits)
  obtain k1 h1 where i1: "InternStringIfNecessaryAndGetKey hash (demangle fn) h0 = (k1, h1)"
    by (cases "InternStringIfNecessaryAndGetKey hash (demangle fn) h0")
  obtain k2 h2 where i2: "InternStringIfNecessaryAndGetKey hash mn h1 = (k2, h2)"
    by (cases "InternStringIfNecessaryAndGetKey hash mn h1")
  from assms(1) False fn mn i1 i2
  have h': "h' = emplace_back (address_info (x\<lparr>function_name_or_key := kStringKey k1,
                     map_name_or_key := kStringKey k2\<rparr>)) h2"
    by (simp add: OnAddressInfo_def Let_def h0_def [symmetric])
  from i1 h0 have "sent_once h1" by (rule sent_once_InternString)
  with i2 have "sent_once h2" by (rule sent_once_InternString)
  then show ?thesis
    unfolding h' by (intro sent_once_emplace_back) simp_all
qed

lemma sent_once_perform:
  assumes "perform lib c h = Inr h'" and "sent_once h"
  shows "sent_once h'"
proof (cases c)
  case (Call_Start b)
  with assms show ?thesis by (simp add: sent_once_Start)
next
  case Call_Stop
  with assms show ?thesis by (simp add: sent_once_Stop)
next
  case (Worker_iteration timed_out)
  with assms show ?thesis
    by (auto split: if_splits sum.splits dest: sent_once_SenderThread_iteration)
next
  case (External_write f)
  have "sent_once (h\<lparr>orbit_test_file := f\<rparr>) = sent_once h"
    by (rule sent_once_cong) simp_all
  with External_write assms show ?thesis by auto
next
  case (Call_OnSchedulingSlice x)
  with assms show ?thesis
    by (auto simp: OnSchedulingSlice_def sent_once_emplace_back)
next
  case (Call_OnCallstackSample x)
  with assms show ?thesis
    by (auto simp: OnCallstackSample_def sent_once_emplace_back
        split: callstack_or_key.splits prod.splits dest: sent_once_InternCallstack)
next
  case (Call_OnFunctionCall x)
  with assms show ?thesis
    by (auto simp: OnFunctionCall_def sent_once_emplace_back)
next
  case (Call_OnIntrospectionScope x)
  with assms show ?thesis
    by (auto simp: OnIntrospectionScope_def sent_once_emplace_back)
next
  case (Call_OnGpuJob x)
  with assms show ?thesis
    by (auto simp: OnGpuJob_def sent_once_emplace_back
        split: string_or_key.splits prod.splits dest: sent_once_InternString)
next
  case (Call_OnThreadName x)
  with assms show ?thesis
    by (auto simp: OnThreadName_def sent_once_emplace_back)
next
  case (Call_OnThreadStateSlice x)
  with assms show ?thesis
    by (auto simp: OnThreadStateSlice_def sent_once_emplace_back)
next
  case (Call_OnAddressInfo x)
  with assms show ?thesis by (simp add: sent_once_OnAddressInfo)
next
  case (Call_OnTracepointEvent x)
  with assms show ?thesis
    by (auto simp: OnTracepointEvent_def sent_once_emplace_back
        split: tracepoint_info_or_key.splits prod.splits dest: sent_once_InternTracepointInfo)
next
  case (Call_InternCallstackIfNecessaryAndGetKey x)
  with assms show ?thesis
    by (auto intro: sent_once_InternCallstack [OF surjective_pairing])
next
  case (Call_InternStringIfNecessaryAndGetKey x)
  with assms show ?thesis
    by (auto intro: sent_once_InternString [OF surjective_pairing])
next
  case (Call_InternTracepointInfoIfNecessaryAndGetKey x)
  with assms show ?thesis
    by (auto intro: sent_once_InternTracepointInfo [OF surjective_pairing])
qed

lemma sent_once_run:
  assumes "run lib calls h = Inr h'" and "sent_once h"
  shows "sent_once h'"
  using assms
  by (induction calls arbitrary: h) (auto split: sum.splits dest: sent_once_perform)

text \<open>
  C1. In every state reached from a new handler by any sequence of calls (callbacks,
  interning operations, worker iterations, \<^verbatim>\<open>Start\<close> and \<^verbatim>\<open>Stop\<close>), the interned-payload
  events appended so far that carry a given key of a given domain number at most one: one
  when the key is marked sent, none otherwise. Each of the three interning operations
  returns the key and leaves the handler as it is when the key is marked sent; when it is
  not, it marks the key and appends the one interned-payload event.
\<close>

theorem interned_at_most_once:
  assumes "run lib calls (new_LinuxTracingHandler file) = Inr h"
  shows "interned_count d key (appended h) \<le> 1
    \<and> interned_count d key (appended h) = (if key \<in> keys_sent d h then 1 else 0)
    \<and> InternStringIfNecessaryAndGetKey (std_hash lib) str h =
        (if std_hash lib str \<in> string_keys_sent h then (std_hash lib str, h)
         else (std_hash lib str,
               h\<lparr>event_buffer := event_buffer h @ [interned_string (std_hash lib str) str],
                 string_keys_sent := insert (std_hash lib str) (string_keys_sent h),
                 appended := appended h @ [interned_string (std_hash lib str) str]\<rparr>))
    \<and> InternCallstackIfNecessaryAndGetKey c h =
        (if ComputeCallstackKey c \<in> callstack_keys_sent h then (ComputeCallstackKey c, h)
         else (ComputeCallstackKey c,
               h\<lparr>event_buffer := event_buffer h @ [interned_callstack (ComputeCallstackKey c) c],
                 callstack_keys_sent := insert (ComputeCallstackKey c) (callstack_keys_sent h),
                 appended := appended h @ [interned_callstack (ComputeCallstackKey c) c]\<rparr>))
    \<and> InternTracepointInfoIfNecessaryAndGetKey (std_hash lib) info h =
        (if std_hash lib (category info @ '':'' @ name info) \<in> tracepoint_keys_sent h
         then (std_hash lib (category info @ '':'' @ name info), h)
         else (std_hash lib (category info @ '':'' @ name info),
               h\<lparr>event_buffer := event_buffer h @
                   [interned_tracepoint_info (std_hash lib (category info @ '':'' @ name info)) info],
                 tracepoint_keys_sent :=
                   insert (std_hash lib (category info @ '':'' @ name info)) (tracepoint_keys_sent h),
                 appended := appended h @
                   [interned_tracepoint_info (std_hash lib (category info @ '':'' @ name info)) info]\<rparr>))"
proof -
  have "sent_once h"
    using assms sent_once_new by (rule sent_once_run)
  then have count: "interned_count d key (appended h) = (if key \<in> keys_sent d h then 1 else 0)"
    by (simp add: sent_once_def)
  have s: "InternStringIfNecessaryAndGetKey (std_hash lib) str h =
        (if std_hash lib str \<in> string_keys_sent h then (std_hash lib str, h)
         else (std_hash lib str,
               h\<lparr>event_buffer := event_buffer h @ [interned_string (std_hash lib str) str],
                 string_keys_sent := insert (std_hash lib str) (string_keys_sent h),
                 appended := appended h @ [interned_string (std_hash lib str) str]\<rparr>))"
    by (simp add: InternString_old InternString_new emplace_back_def)
  have c: "InternCallstackIfNecessaryAndGetKey c h =
        (if ComputeCallstackKey c \<in> callstack_keys_sent h then (ComputeCallstackKey c, h)
         else (ComputeCallstackKey c,
               h\<lparr>event_buffer := event_buffer h @ [interned_callstack (ComputeCallstackKey c) c],
                 callstack_keys_sent := insert (ComputeCallstackKey c) (callstack_keys_sent h),
                 appended := appended h @ [interned_callstack (ComputeCallstackKey c) c]\<rparr>))"
    by (simp add: InternCallstack_old InternCallstack_new emplace_back_def)
  have t: "InternTracepointInfoIfNecessaryAndGetKey (std_hash lib) info h =
        (if std_hash lib (category info @ '':'' @ name info) \<in> tracepoint_keys_sent h
         then (std_hash lib (category info @ '':'' @ name info), h)
         else (std_hash lib (category info @ '':'' @ name info),
               h\<lparr>event_buffer := event_buffer h @
                   [interned_tracepoint_info (std_hash lib (category info @ '':'' @ name info)) info],
                 tracepoint_keys_sent :=
                   insert (std_hash lib (category info @ '':'' @ name info)) (tracepoint_keys_sent h),
                 appended := appended h @
                   [interned_tracepoint_info (std_hash lib (category info @ '':'' @ name info)) info]\<rparr>))"
    by (simp add: InternTracepointInfo_old InternTracepointInfo_new emplace_back_def)
  from count have "interned_count d key (appended h) \<le> 1" by simp
  with count s c t show ?thesis by blast
qed

lemma drain_loop_one_record:
  "drain_loop toy_parse [3, 0, 0, 0, 97, 98, 99] h =
     Inr (emplace_back (gpu_queue_submission [97, 98, 99]) h)"
proof -
  have "ReadMessage toy_parse [3, 0, 0, 0, 97, 98, 99] = Inr (Some ([97, 98, 99], []))"
    by (simp add: ReadMessage_def ReadLittleEndian32_def ReadRaw_def toy_parse_def)
  moreover have "ReadMessage toy_parse [] = Inr None"
    by (simp add: ReadMessage_def ReadLittleEndian32_def)
  ultimately show ?thesis
    by (simp add: drain_loop_step drain_loop_stop)
qed

lemma sample_run: "run toy_library sample_calls (new_LinuxTracingHandler Absent) = Inr sample_final"
  by (simp add: sample_calls_def sample_final_def sample_first_batch_def sample_last_batch_def
      toy_library_def new_LinuxTracingHandler_def Start_def Stop_def SenderThread_iteration_def
      ifstream_open_def drain_loop_one_record emplace_back_def
      OnCallstackSample_def OnGpuJob_def OnAddressInfo_def OnTracepointEvent_def
      InternCallstackIfNecessaryAndGetKey_def InternStringIfNecessaryAndGetKey_def
      InternTracepointInfoIfNecessaryAndGetKey_def ComputeStringKey_def ComputeCallstackKey_def
      toy_hash_def toy_demangle_def Let_def insert_commute)

theorem interned_at_most_once_witness:
  "run toy_library sample_calls (new_LinuxTracingHandler Absent) = Inr sample_final
   \<and> interned_count callstack_domain 516707 (appended sample_final) \<le> 1
   \<and> interned_count callstack_domain 516707 (appended sample_final) = 1"
  using interned_at_most_once [OF sample_run, of callstack_domain 516707] sample_run
  by (simp add: sample_final_def)

section \<open>Delivery to the consumer\<close>

lemma nothing_lost_emplace_back: "nothing_lost h \<Longrightarrow> nothing_lost (emplace_back e h)"
  by (simp add: nothing_lost_def emplace_back_def)

lemma nothing_lost_emplace_all: "nothing_lost h \<Longrightarrow> nothing_lost (emplace_all es h)"
  by (induction es arbitrary: h) (simp_all add: nothing_lost_emplace_back)

lemma nothing_lost_drain_loop:
  "drain_loop parse bytes h = Inr h' \<Longrightarrow> nothing_lost h \<Longrightarrow> nothing_lost h'"
  using drain_loop_emplaces [of parse bytes h h'] by (auto simp: nothing_lost_emplace_all)

lemma nothing_lost_InternString:
  "InternStringIfNecessaryAndGetKey hash str h = (key, h1) \<Longrightarrow> nothing_lost h \<Longrightarrow> nothing_lost h1"
  by (auto simp: InternStringIfNecessaryAndGetKey_def Let_def nothing_lost_def emplace_back_def
      split: if_splits)

lemma nothing_lost_InternCallstack:
  "InternCallstackIfNecessaryAndGetKey c h = (key, h1) \<Longrightarrow> nothing_lost h \<Longrightarrow> nothing_lost h1"
  by (auto simp: InternCallstackIfNecessaryAndGetKey_def Let_def nothing_lost_def emplace_back_def
      split: if_splits)

lemma nothing_lost_InternTracepointInfo:
  "InternTracepointInfoIfNecessaryAndGetKey hash info h = (key, h1) \<Longrightarrow> nothing_lost h
     \<Longrightarrow> nothing_lost h1"
  by (auto simp: InternTracepointInfoIfNecessaryAndGetKey_def Let_def nothing_lost_def
      emplace_back_def split: if_splits)

text \<open>An iteration of the worker hands over the whole buffer and leaves it empty.\<close>

lemma SenderThread_iteration_flushes:
  assumes "SenderThread_iteration parse h = Inr (stopped, h')" and "nothing_lost h"
  shows "nothing_lost h'" and "event_buffer h' = []"
proof -
  from assms(1) obtain h1 where
    h1: "h1 = h \<or> (\<exists>bytes drained. drain_loop parse bytes h = Inr drained
                 \<and> h1 = drained\<lparr>orbit_test_file := Absent\<rparr>)"
    and h': "h' = h1\<lparr>event_buffer := [],
                  ProcessEvents_calls := ProcessEvents_calls h1 @ [event_buffer h1]\<rparr>"
    by (rule SenderThread_iteration_Inr)
  have "nothing_lost (drained\<lparr>orbit_test_file := Absent\<rparr>)"
    if "drain_loop parse bytes h = Inr drained" for bytes drained
    using nothing_lost_drain_loop [OF that assms(2)] by (simp add: nothing_lost_def)
  with h1 assms(2) have "nothing_lost h1" by auto
  then show "nothing_lost h'"
    by (simp add: h' nothing_lost_def)
  show "event_buffer h' = []"
    by (simp add: h')
qed

text \<open>
  When the worker runs. With a live tracer and a buffer of at least
  \<open>kSendEventCountInterval\<close> events it runs without a timeout; below that count it runs
  only when the timeout has passed; and whenever it runs with a live tracer it passes the
  whole buffer, empty or not, to \<^verbatim>\<open>ProcessEvents\<close> as one batch.
\<close>

lemma worker_runs_on_full_buffer:
  assumes "sender_thread h" and "tracer h" and "length (event_buffer h) \<ge> 5000"
  shows "perform lib (Worker_iteration False) h =
     Inr (h\<lparr>event_buffer := [], ProcessEvents_calls := ProcessEvents_calls h @ [event_buffer h]\<rparr>)"
  using assms
  by (simp add: sender_condition_def kSendEventCountInterval_def SenderThread_iteration_def)

lemma worker_waits_below_count:
  assumes "tracer h" and "length (event_buffer h) < 5000"
  shows "perform lib (Worker_iteration False) h = Inr h"
  using assms by (simp add: sender_condition_def kSendEventCountInterval_def)

lemma worker_runs_on_timeout:
  assumes "sender_thread h" and "tracer h"
  shows "perform lib (Worker_iteration True) h =
     Inr (h\<lparr>event_buffer := [], ProcessEvents_calls := ProcessEvents_calls h @ [event_buffer h]\<rparr>)"
  using assms by (simp add: SenderThread_iteration_def)

lemma nothing_lost_Stop:
  assumes "Stop parse h = Inr h'" and "nothing_lost h"
  shows "nothing_lost h'" and "event_buffer h' = []"
proof -
  from assms(1) obtain stopped h1 where
    i: "SenderThread_iteration parse (h\<lparr>tracer := False\<rparr>) = Inr (stopped, h1)"
    and h': "h' = h1\<lparr>sender_thread := False\<rparr>"
    by (auto simp: Stop_def split: if_splits sum.splits)
  from assms(2) have "nothing_lost (h\<lparr>tracer := False\<rparr>)"
    by (simp add: nothing_lost_def)
  with i have "nothing_lost h1" and "event_buffer h1 = []"
    by (rule SenderThread_iteration_flushes)+
  then show "nothing_lost h'" and "event_buffer h' = []"
    by (simp_all add: h' nothing_lost_def)
qed

lemma nothing_lost_OnAddressInfo:
  assumes "OnAddressInfo hash demangle x h = Inr h'" and "nothing_lost h"
  shows "nothing_lost h'"
proof (cases "absolute_address x \<in> addresses_seen h")
  case True
  with assms show ?thesis by (simp add: OnAddressInfo_def)
next
  case False
  define h0 where "h0 = h\<lparr>addresses_seen := insert (absolute_address x) (addresses_seen h)\<rparr>"
  from assms(2) have h0: "nothing_lost h0"
    by (simp add: h0_def nothing_lost_def)
  from assms(1) False obtain fn mn where
    fn: "function_name_or_key x = kString fn" and mn: "map_name_or_key x = kString mn"
    by (auto simp: OnAddressInfo_def Let_def split: string_or_key.splits prod.splits)
  obtain k1 h1 where i1: "InternStringIfNecessaryAndGetKey hash (demangle fn) h0 = (k1, h1)"
    by (cases "InternStringIfNecessaryAndGetKey hash (demangle fn) h0")
  obtain k2 h2 where i2: "InternStringIfNecessaryAndGetKey hash mn h1 = (k2, h2)"
    by (cases "InternStringIfNecessaryAndGetKey hash mn h1")
  from assms(1) False fn mn i1 i2
  have h': "h' = emplace_back (address_info (x\<lparr>function_name_or_key := kStringKey k1,
                     map_name_or_key := kStringKey k2\<rparr>)) h2"
    by (simp add: OnAddressInfo_def Let_def h0_def [symmetric])
  from i1 h0 have "nothing_lost h1" by (rule nothing_lost_InternString)
  with i2 have "nothing_lost h2" by (rule nothing_lost_InternString)
  then show ?thesis
    unfolding h' by (rule nothing_lost_emplace_back)
qed

lemma nothing_lost_perform:
  assumes "perform lib c h = Inr h'" and "nothing_lost h"
  shows "nothing_lost h'"
proof (cases c)
  case (Call_Start b)
  with assms show ?thesis
    by (auto simp: Start_def nothing_lost_def split: if_splits)
next
  case Call_Stop
  with assms show ?thesis by (simp add: nothing_lost_Stop)
next
  case (Worker_iteration timed_out)
  with assms show ?thesis
    by (auto split: if_splits sum.splits dest: SenderThread_iteration_flushes(1))
next
  case (External_write f)
  with assms show ?thesis by (auto simp: nothing_lost_def)
next
  case (Call_OnSchedulingSlice x)
  with assms show ?thesis
    by (auto simp: OnSchedulingSlice_def nothing_lost_emplace_back)
next
  case (Call_OnCallstackSample x)
  with assms show ?thesis
    by (auto simp: OnCallstackSample_def nothing_lost_emplace_back
        split: callstack_or_key.splits prod.splits dest: nothing_lost_InternCallstack)
next
  case (Call_OnFunctionCall x)
  with assms show ?thesis
    by (auto simp: OnFunctionCall_def nothing_lost_emplace_back)
next
  case (Call_OnIntrospectionScope x)
  with assms show ?thesis
    by (auto simp: OnIntrospectionScope_def nothing_lost_emplace_back)
next
  case (Call_OnGpuJob x)
  with assms show ?thesis
    by (auto simp: OnGpuJob_def nothing_lost_emplace_back
        split: string_or_key.splits prod.splits dest: nothing_lost_InternString)
next
  case (Call_OnThreadName x)
  with assms show ?thesis
    by (auto simp: OnThreadName_def nothing_lost_emplace_back)
next
  case (Call_OnThreadStateSlice x)
  with assms show ?thesis
    by (auto simp: OnThreadStateSlice_def nothing_lost_emplace_back)
next
  case (Call_OnAddressInfo x)
  with assms show ?thesis by (simp add: nothing_lost_OnAddressInfo)
next
  case (Call_OnTracepointEvent x)
  with assms show ?thesis
    by (auto simp: OnTracepointEvent_def nothing_lost_emplace_back
        split: tracepoint_info_or_key.splits prod.splits dest: nothing_lost_InternTracepointInfo)
next
  case (Call_InternCallstackIfNecessaryAndGetKey x)
  with assms show ?thesis
    by (auto intro: nothing_lost_InternCallstack [OF surjective_pairing])
next
  case (Call_InternStringIfNecessaryAndGetKey x)
  with assms show ?thesis
    by (auto intro: nothing_lost_InternString [OF surjective_pairing])
next
  case (Call_InternTracepointInfoIfNecessaryAndGetKey x)
  with assms show ?thesis
    by (auto intro: nothing_lost_InternTracepointInfo [OF surjective_pairing])
qed

lemma nothing_lost_run:
  assumes "run lib calls h = Inr h'" and "nothing_lost h"
  shows "nothing_lost h'"
  using assms
  by (induction calls arbitrary: h) (auto split: sum.splits dest: nothing_lost_perform)


text \<open>
  No callback looks at the tracer handle. An event enqueued after \<^verbatim>\<open>Stop\<close> has returned
  stays in the buffer, and there is no worker to deliver it before the next \<^verbatim>\<open>Start\<close>.
\<close>

lemma enqueued_after_Stop_stays:
  assumes "nothing_lost h" and "perform lib Call_Stop h = Inr h1"
    and "perform lib (Call_OnSchedulingSlice x) h1 = Inr h2"
  shows "event_buffer h2 = [scheduling_slice x]"
    and "ProcessEvents_calls h2 = ProcessEvents_calls h1"
    and "perform lib (Worker_iteration timed_out) h2 = Inr h2"
proof -
  from assms(2) have stop: "Stop (ParseFromArray lib) h = Inr h1" by simp
  from nothing_lost_Stop(2) [OF stop assms(1)] have "event_buffer h1 = []" .
  with assms(3) show "event_buffer h2 = [scheduling_slice x]"
    and "ProcessEvents_calls h2 = ProcessEvents_calls h1"
    by (auto simp: OnSchedulingSlice_def emplace_back_def)
  from stop have "\<not> sender_thread h1"
    by (auto simp: Stop_def split: if_splits sum.splits)
  with assms(3) have "\<not> sender_thread h2"
    by (auto simp: OnSchedulingSlice_def emplace_back_def)
  then show "perform lib (Worker_iteration timed_out) h2 = Inr h2" by simp
qed



section \<open>Intern records come first\<close>

lemma references_follow_interns_Nil: "references_follow_interns []"
  by (simp add: references_follow_interns_def)

lemma references_follow_interns_snoc:
  assumes "references_follow_interns log"
    and "\<forall>dk\<in>set (referenced_keys e). \<exists>i<length log. interned_key (log ! i) = Some dk"
  shows "references_follow_interns (log @ [e])"
  unfolding references_follow_interns_def
proof (intro allI impI ballI)
  fix j dk
  assume j: "j < length (log @ [e])" and dk: "dk \<in> set (referenced_keys ((log @ [e]) ! j))"
  show "\<exists>i<j. interned_key ((log @ [e]) ! i) = Some dk"
  proof (cases "j < length log")
    case True
    with dk assms(1) obtain i where "i < j" and "interned_key (log ! i) = Some dk"
      by (auto simp: references_follow_interns_def nth_append)
    with True show ?thesis
      by (auto simp: nth_append intro!: exI [of _ i])
  next
    case False
    with j have jl: "j = length log" by simp
    with dk assms(2) obtain i where "i < length log" and "interned_key (log ! i) = Some dk"
      by auto
    with jl show ?thesis
      by (auto simp: nth_append intro!: exI [of _ i])
  qed
qed

lemma references_follow_interns_snoc_plain:
  "references_follow_interns log \<Longrightarrow> referenced_keys e = [] \<Longrightarrow>
     references_follow_interns (log @ [e])"
  by (rule references_follow_interns_snoc) simp_all

lemma interned_available:
  assumes "sent_once h" and "k \<in> keys_sent d h"
  shows "\<exists>i<length (appended h). interned_key (appended h ! i) = Some (d, k)"
proof -
  from assms have "interned_count d k (appended h) = 1"
    by (simp add: sent_once_def)
  then have "filter (\<lambda>e. interned_key e = Some (d, k)) (appended h) \<noteq> []"
    by (auto simp: interned_count_def)
  then obtain e where "e \<in> set (appended h)" and "interned_key e = Some (d, k)"
    by (auto simp: filter_empty_conv)
  then show ?thesis
    by (auto simp: in_set_conv_nth)
qed

lemma interned_position_unique:
  assumes "interned_count d k log \<le> 1"
    and "m < length log" and "interned_key (log ! m) = Some (d, k)"
    and "n < length log" and "interned_key (log ! n) = Some (d, k)"
  shows "m = n"
  using assms
proof (induction log arbitrary: m n)
  case Nil
  then show ?case by simp
next
  case (Cons e log)
  have present: "0 < interned_count d k log"
    if "p < length log" and "interned_key (log ! p) = Some (d, k)" for p
  proof -
    from that have "log ! p \<in> set (filter (\<lambda>e. interned_key e = Some (d, k)) log)"
      by simp
    then show ?thesis
      unfolding interned_count_def by (metis length_pos_if_in_set)
  qed
  show ?case
  proof (cases m; cases n)
    fix m' n'
    assume mn: "m = Suc m'" "n = Suc n'"
    with Cons.prems have "interned_count d k log \<le> 1"
      by (simp add: interned_count_Cons split: if_splits)
    with Cons.prems mn have "m' = n'"
      by (intro Cons.IH) simp_all
    with mn show "m = n" by simp
  next
    fix n'
    assume mn: "m = 0" "n = Suc n'"
    with Cons.prems present [of n'] show "m = n"
      by (simp add: interned_count_Cons)
  next
    fix m'
    assume mn: "m = Suc m'" "n = 0"
    with Cons.prems present [of m'] show "m = n"
      by (simp add: interned_count_Cons)
  qed simp
qed

lemma follow_emplace_all_plain:
  "references_follow_interns (appended h) \<Longrightarrow> \<forall>e\<in>set es. referenced_keys e = [] \<Longrightarrow>
     references_follow_interns (appended (emplace_all es h))"
  by (induction es arbitrary: h) (simp_all add: references_follow_interns_snoc_plain)

lemma follow_emplace_back_sent:
  assumes "references_follow_interns (appended h)" and "sent_once h"
    and "\<forall>(d, k)\<in>set (referenced_keys e). k \<in> keys_sent d h"
  shows "references_follow_interns (appended (emplace_back e h))"
proof -
  have "\<forall>dk\<in>set (referenced_keys e).
          \<exists>i<length (appended h). interned_key (appended h ! i) = Some dk"
  proof
    fix dk assume dk: "dk \<in> set (referenced_keys e)"
    obtain d k where "dk = (d, k)" by (cases dk)
    with dk assms(3) have "k \<in> keys_sent d h" by auto
    with assms(2) \<open>dk = (d, k)\<close>
    show "\<exists>i<length (appended h). interned_key (appended h ! i) = Some dk"
      by (simp add: interned_available)
  qed
  with assms(1) show ?thesis
    by (simp add: references_follow_interns_snoc)
qed

lemma follow_InternString:
  assumes "InternStringIfNecessaryAndGetKey hash str h = (key, h1)"
    and "references_follow_interns (appended h)"
  shows "references_follow_interns (appended h1)"
    and "key \<in> string_keys_sent h1" and "string_keys_sent h \<subseteq> string_keys_sent h1"
  using assms
  by (auto simp: InternStringIfNecessaryAndGetKey_def Let_def
      references_follow_interns_snoc_plain emplace_back_def split: if_splits)

lemma follow_InternCallstack:
  assumes "InternCallstackIfNecessaryAndGetKey c h = (key, h1)"
    and "references_follow_interns (appended h)"
  shows "references_follow_interns (appended h1)" and "key \<in> callstack_keys_sent h1"
  using assms
  by (auto simp: InternCallstackIfNecessaryAndGetKey_def Let_def
      references_follow_interns_snoc_plain emplace_back_def split: if_splits)

lemma follow_InternTracepointInfo:
  assumes "InternTracepointInfoIfNecessaryAndGetKey hash info h = (key, h1)"
    and "references_follow_interns (appended h)"
  shows "references_follow_interns (appended h1)" and "key \<in> tracepoint_keys_sent h1"
  using assms
  by (auto simp: InternTracepointInfoIfNecessaryAndGetKey_def Let_def
      references_follow_interns_snoc_plain emplace_back_def split: if_splits)

lemma follow_SenderThread_iteration:
  assumes "SenderThread_iteration parse h = Inr (stopped, h')"
    and "references_follow_interns (appended h)"
  shows "references_follow_interns (appended h')"
proof -
  from assms(1) obtain h1 where
    h1: "h1 = h \<or> (\<exists>bytes drained. drain_loop parse bytes h = Inr drained
                 \<and> h1 = drained\<lparr>orbit_test_file := Absent\<rparr>)"
    and h': "h' = h1\<lparr>event_buffer := [],
                  ProcessEvents_calls := ProcessEvents_calls h1 @ [event_buffer h1]\<rparr>"
    by (rule SenderThread_iteration_Inr)
  have "references_follow_interns (appended drained)"
    if "drain_loop parse bytes h = Inr drained" for bytes drained
    using drain_loop_emplaces [OF that] assms(2)
    by (auto simp: follow_emplace_all_plain)
  with h1 assms(2) have "references_follow_interns (appended h1)" by auto
  then show ?thesis by (simp add: h')
qed

lemma follow_OnCallstackSample:
  assumes "OnCallstackSample x h = Inr h'" and "sent_once h"
    and "references_follow_interns (appended h)"
  shows "references_follow_interns (appended h')"
proof -
  from assms(1) obtain c key h1 where
    i: "InternCallstackIfNecessaryAndGetKey c h = (key, h1)" and
    h': "h' = emplace_back (callstack_sample (x\<lparr>callstack_or_key := kCallstackKey key\<rparr>)) h1"
    by (auto simp: OnCallstackSample_def split: callstack_or_key.splits prod.splits)
  from i assms(2) have "sent_once h1" by (rule sent_once_InternCallstack)
  moreover from i assms(3) have "references_follow_interns (appended h1)"
    and "key \<in> callstack_keys_sent h1"
    by (rule follow_InternCallstack)+
  ultimately show ?thesis
    unfolding h' by (intro follow_emplace_back_sent) simp_all
qed

lemma follow_OnGpuJob:
  assumes "OnGpuJob hash x h = Inr h'" and "sent_once h"
    and "references_follow_interns (appended h)"
  shows "references_follow_interns (appended h')"
proof -
  from assms(1) obtain str key h1 where
    i: "InternStringIfNecessaryAndGetKey hash str h = (key, h1)" and
    h': "h' = emplace_back (gpu_job (x\<lparr>timeline_or_key := kStringKey key\<rparr>)) h1"
    by (auto simp: OnGpuJob_def split: string_or_key.splits prod.splits)
  from i assms(2) have "sent_once h1" by (rule sent_once_InternString)
  moreover from i assms(3) have "references_follow_interns (appended h1)"
    and "key \<in> string_keys_sent h1"
    by (rule follow_InternString)+
  ultimately show ?thesis
    unfolding h' by (intro follow_emplace_back_sent) simp_all
qed

lemma follow_OnTracepointEvent:
  assumes "OnTracepointEvent hash x h = Inr h'" and "sent_once h"
    and "references_follow_interns (appended h)"
  shows "references_follow_interns (appended h')"
proof -
  from assms(1) obtain info key h1 where
    i: "InternTracepointInfoIfNecessaryAndGetKey hash info h = (key, h1)" and
    h': "h' = emplace_back (tracepoint_event (x\<lparr>tracepoint_info_or_key := kTracepointInfoKey key\<rparr>)) h1"
    by (auto simp: OnTracepointEvent_def split: tracepoint_info_or_key.splits prod.splits)
  from i assms(2) have "sent_once h1" by (rule sent_once_InternTracepointInfo)
  moreover from i assms(3) have "references_follow_interns (appended h1)"
    and "key \<in> tracepoint_keys_sent h1"
    by (rule follow_InternTracepointInfo)+
  ultimately show ?thesis
    unfolding h' by (intro follow_emplace_back_sent) simp_all
qed

lemma follow_OnAddressInfo:
  assumes "OnAddressInfo hash demangle x h = Inr h'" and "sent_once h"
    and "references_follow_interns (appended h)"
  shows "references_follow_interns (appended h')"
proof (cases "absolute_address x \<in> addresses_seen h")
  case True
  with assms show ?thesis by (simp add: OnAddressInfo_def)
next
  case False
  define h0 where "h0 = h\<lparr>addresses_seen := insert (absolute_address x) (addresses_seen h)\<rparr>"
  have "sent_once h0 = sent_once h"
    unfolding h0_def by (rule sent_once_cong) simp_all
  with assms(2) have s0: "sent_once h0" by simp
  from assms(3) have f0: "references_follow_interns (appended h0)"
    by (simp add: h0_def)
  from assms(1) False obtain fn mn where
    fn: "function_name_or_key x = kString fn" and mn: "map_name_or_key x = kString mn"
    by (auto simp: OnAddressInfo_def Let_def split: string_or_key.splits prod.splits)
  obtain k1 h1 where i1: "InternStringIfNecessaryAndGetKey hash (demangle fn) h0 = (k1, h1)"
    by (cases "InternStringIfNecessaryAndGetKey hash (demangle fn) h0")
  obtain k2 h2 where i2: "InternStringIfNecessaryAndGetKey hash mn h1 = (k2, h2)"
    by (cases "InternStringIfNecessaryAndGetKey hash mn h1")
  from assms(1) False fn mn i1 i2
  have h': "h' = emplace_back (address_info (x\<lparr>function_name_or_key := kStringKey k1,
                     map_name_or_key := kStringKey k2\<rparr>)) h2"
    by (simp add: OnAddressInfo_def Let_def h0_def [symmetric])
  from i1 s0 have s1: "sent_once h1" by (rule sent_once_InternString)
  from i1 f0 have f1: "references_follow_interns (appended h1)" and k1: "k1 \<in> string_keys_sent h1"
    by (rule follow_InternString)+
  from i2 s1 have s2: "sent_once h2" by (rule sent_once_InternString)
  from i2 f1 have f2: "references_follow_interns (appended h2)" and k2: "k2 \<in> string_keys_sent h2"
    and "string_keys_sent h1 \<subseteq> string_keys_sent h2"
    by (rule follow_InternString)+
  with k1 have "k1 \<in> string_keys_sent h2" by auto
  with f2 s2 k2 show ?thesis
    unfolding h' by (intro follow_emplace_back_sent) simp_all
qed

lemma follow_perform:
  assumes "perform lib c h = Inr h'" and "sent_once h"
    and "references_follow_interns (appended h)"
  shows "references_follow_interns (appended h')"
proof (cases c)
  case (Call_Start b)
  with assms show ?thesis
    by (auto simp: Start_def split: if_splits)
next
  case Call_Stop
  with assms(1) obtain stopped h1 where
    i: "SenderThread_iteration (ParseFromArray lib) (h\<lparr>tracer := False\<rparr>) = Inr (stopped, h1)"
    and h': "h' = h1\<lparr>sender_thread := False\<rparr>"
    by (auto simp: Stop_def split: if_splits sum.splits)
  from assms(3) have "references_follow_interns (appended (h\<lparr>tracer := False\<rparr>))"
    by simp
  with i have "references_follow_interns (appended h1)"
    by (rule follow_SenderThread_iteration)
  then show ?thesis by (simp add: h')
next
  case (Worker_iteration timed_out)
  with assms show ?thesis
    by (auto split: if_splits sum.splits dest: follow_SenderThread_iteration)
next
  case (External_write f)
  with assms show ?thesis by auto
next
  case (Call_OnSchedulingSlice x)
  with assms show ?thesis
    by (auto simp: OnSchedulingSlice_def references_follow_interns_snoc_plain)
next
  case (Call_OnCallstackSample x)
  with assms show ?thesis by (simp add: follow_OnCallstackSample)
next
  case (Call_OnFunctionCall x)
  with assms show ?thesis
    by (auto simp: OnFunctionCall_def references_follow_interns_snoc_plain)
next
  case (Call_OnIntrospectionScope x)
  with assms show ?thesis
    by (auto simp: OnIntrospectionScope_def references_follow_interns_snoc_plain)
next
  case (Call_OnGpuJob x)
  with assms show ?thesis by (simp add: follow_OnGpuJob)
next
  case (Call_OnThreadName x)
  with assms show ?thesis
    by (auto simp: OnThreadName_def references_follow_interns_snoc_plain)
next
  case (Call_OnThreadStateSlice x)
  with assms show ?thesis
    by (auto simp: OnThreadStateSlice_def references_follow_interns_snoc_plain)
next
  case (Call_OnAddressInfo x)
  with assms show ?thesis by (simp add: follow_OnAddressInfo)
next
  case (Call_OnTracepointEvent x)
  with assms show ?thesis by (simp add: follow_OnTracepointEvent)
next
  case (Call_InternCallstackIfNecessaryAndGetKey x)
  with assms show ?thesis
    by (auto intro: follow_InternCallstack(1) [OF surjective_pairing])
next
  case (Call_InternStringIfNecessaryAndGetKey x)
  with assms show ?thesis
    by (auto intro: follow_InternString(1) [OF surjective_pairing])
next
  case (Call_InternTracepointInfoIfNecessaryAndGetKey x)
  with assms show ?thesis
    by (auto intro: follow_InternTracepointInfo(1) [OF surjective_pairing])
qed

lemma follow_run:
  assumes "run lib calls h = Inr h'" and "sent_once h"
    and "references_follow_interns (appended h)"
  shows "references_follow_interns (appended h')"
  using assms
proof (induction calls arbitrary: h)
  case Nil
  then show ?case by simp
next
  case (Cons c cs)
  then obtain h1 where p: "perform lib c h = Inr h1" and r: "run lib cs h1 = Inr h'"
    by (auto split: sum.splits)
  from p Cons.prems(2) have "sent_once h1" by (rule sent_once_perform)
  moreover from p Cons.prems(2,3) have "references_follow_interns (appended h1)"
    by (rule follow_perform)
  ultimately show ?case using r by (intro Cons.IH)
qed

text \<open>
  C3. In every state reached from a new handler by a sequence of calls, every event of the
  append history that carries an intern key is preceded in the history by the
  interned-payload event of that key; and inside the event buffer an interned-payload event
  stands before every event that carries its key. So the data event of a call never comes
  before the intern record the same call emitted.
\<close>

theorem intern_record_precedes_references:
  assumes "run lib calls (new_LinuxTracingHandler file) = Inr h"
  shows "(\<forall>j<length (appended h). \<forall>dk\<in>set (referenced_keys (appended h ! j)).
            \<exists>i<j. interned_key (appended h ! i) = Some dk)
       \<and> (\<forall>i<length (event_buffer h). \<forall>j<length (event_buffer h).
            \<forall>dk\<in>set (referenced_keys (event_buffer h ! j)).
              interned_key (event_buffer h ! i) = Some dk \<longrightarrow> i < j)"
proof -
  let ?new = "new_LinuxTracingHandler file :: 'a LinuxTracingHandler"
  have s: "sent_once h"
    using assms sent_once_new by (rule sent_once_run)
  have "references_follow_interns (appended ?new)"
    by (simp add: new_LinuxTracingHandler_def references_follow_interns_Nil)
  with assms sent_once_new have f: "references_follow_interns (appended h)"
    by (rule follow_run)
  have "nothing_lost ?new"
    by (simp add: nothing_lost_def new_LinuxTracingHandler_def)
  with assms have "nothing_lost h" by (rule nothing_lost_run)
  then have app: "appended h = concat (ProcessEvents_calls h) @ event_buffer h"
    by (simp add: nothing_lost_def)
  define n where "n = length (concat (ProcessEvents_calls h))"
  have buf: "event_buffer h ! i = appended h ! (n + i)" for i
    by (simp add: app n_def nth_append)
  have len: "length (appended h) = n + length (event_buffer h)"
    by (simp add: app n_def)
  have "i < j" if i: "i < length (event_buffer h)" and j: "j < length (event_buffer h)"
    and dk: "dk \<in> set (referenced_keys (event_buffer h ! j))"
    and int: "interned_key (event_buffer h ! i) = Some dk" for i j dk
  proof -
    obtain d k where dk_eq: "dk = (d, k)" by (cases dk)
    from f j dk obtain i' where i': "i' < n + j" and
      int': "interned_key (appended h ! i') = Some dk"
      unfolding references_follow_interns_def buf len by (metis add_less_cancel_left)
    from s have "interned_count d k (appended h) \<le> 1"
      by (simp add: sent_once_def)
    moreover from i have "n + i < length (appended h)" by (simp add: len)
    moreover from int have "interned_key (appended h ! (n + i)) = Some (d, k)"
      by (simp add: buf dk_eq)
    moreover from i' j have "i' < length (appended h)" by (simp add: len)
    moreover from int' have "interned_key (appended h ! i') = Some (d, k)"
      by (simp add: dk_eq)
    ultimately have "n + i = i'"
      by (rule interned_position_unique)
    with i' show ?thesis by simp
  qed
  with f show ?thesis
    unfolding references_follow_interns_def by blast
qed

theorem intern_record_precedes_references_witness:
  "run toy_library sample_calls (new_LinuxTracingHandler Absent) = Inr sample_final
   \<and> 1 < length (appended sample_final)
   \<and> (callstack_domain, 516707) \<in> set (referenced_keys (appended sample_final ! 1))
   \<and> (\<exists>i<1. interned_key (appended sample_final ! i) = Some (callstack_domain, 516707))"
proof -
  have len: "1 < length (appended sample_final)"
    by (simp add: sample_final_def sample_first_batch_def)
  have ref: "(callstack_domain, 516707) \<in> set (referenced_keys (appended sample_final ! 1))"
    by (simp add: sample_final_def sample_first_batch_def)
  from intern_record_precedes_references [OF sample_run]
  have "\<forall>j<length (appended sample_final). \<forall>dk\<in>set (referenced_keys (appended sample_final ! j)).
            \<exists>i<j. interned_key (appended sample_final ! i) = Some dk"
    by blast
  with len ref have "\<exists>i<1. interned_key (appended sample_final ! i) = Some (callstack_domain, 516707)"
    by blast
  with len ref sample_run show ?thesis by blast
qed

section \<open>Effects of interning a string\<close>

lemma InternString_effect:
  "fst (InternStringIfNecessaryAndGetKey hash str h) = hash str"
  "event_buffer (snd (InternStringIfNecessaryAndGetKey hash str h)) =
     event_buffer h @ (if hash str \<in> string_keys_sent h then [] else [interned_string (hash str) str])"
  "appended (snd (InternStringIfNecessaryAndGetKey hash str h)) =
     appended h @ (if hash str \<in> string_keys_sent h then [] else [interned_string (hash str) str])"
  "string_keys_sent (snd (InternStringIfNecessaryAndGetKey hash str h)) =
     insert (hash str) (string_keys_sent h)"
  "addresses_seen (snd (InternStringIfNecessaryAndGetKey hash str h)) = addresses_seen h"
  by (auto simp: InternStringIfNecessaryAndGetKey_def ComputeStringKey_def Let_def emplace_back_def)

lemma OnAddressInfo_seen:
  "absolute_address info \<in> addresses_seen h \<Longrightarrow> OnAddressInfo hash demangle info h = Inr h"
  by (simp add: OnAddressInfo_def)

lemma OnAddressInfo_first:
  assumes "absolute_address info \<notin> addresses_seen h"
    and "function_name_or_key info = kString fn" and "map_name_or_key info = kString mn"
  shows "OnAddressInfo hash demangle info h =
     Inr (emplace_back
            (address_info (info\<lparr>function_name_or_key := kStringKey (hash (demangle fn)),
                                map_name_or_key := kStringKey (hash mn)\<rparr>))
            (snd (InternStringIfNecessaryAndGetKey hash mn
               (snd (InternStringIfNecessaryAndGetKey hash (demangle fn)
                  (h\<lparr>addresses_seen := insert (absolute_address info) (addresses_seen h)\<rparr>))))))"
proof -
  define h0 where "h0 = h\<lparr>addresses_seen := insert (absolute_address info) (addresses_seen h)\<rparr>"
  obtain k1 h1 where i1: "InternStringIfNecessaryAndGetKey hash (demangle fn) h0 = (k1, h1)"
    by (cases "InternStringIfNecessaryAndGetKey hash (demangle fn) h0")
  obtain k2 h2 where i2: "InternStringIfNecessaryAndGetKey hash mn h1 = (k2, h2)"
    by (cases "InternStringIfNecessaryAndGetKey hash mn h1")
  from i1 have k1: "k1 = hash (demangle fn)"
    using InternString_effect(1) [of hash "demangle fn" h0] by simp
  from i2 have k2: "k2 = hash mn"
    using InternString_effect(1) [of hash mn h1] by simp
  from assms i1 i2 show ?thesis
    by (simp add: OnAddressInfo_def Let_def h0_def [symmetric] k1 k2)
qed

section \<open>The address gate\<close>

lemma addresses_seen_emplace_back [simp]: "addresses_seen (emplace_back e h) = addresses_seen h"
  by (simp add: emplace_back_def)

lemma addresses_seen_emplace_all [simp]: "addresses_seen (emplace_all es h) = addresses_seen h"
  by (simp add: emplace_all_eq)

lemma addresses_seen_drain_loop:
  "drain_loop parse bytes h = Inr h' \<Longrightarrow> addresses_seen h' = addresses_seen h"
  using drain_loop_emplaces [of parse bytes h h'] by auto

lemma addresses_seen_SenderThread_iteration:
  assumes "SenderThread_iteration parse h = Inr (stopped, h')"
  shows "addresses_seen h' = addresses_seen h"
proof -
  from assms obtain h1 where
    h1: "h1 = h \<or> (\<exists>bytes drained. drain_loop parse bytes h = Inr drained
                 \<and> h1 = drained\<lparr>orbit_test_file := Absent\<rparr>)"
    and h': "h' = h1\<lparr>event_buffer := [],
                  ProcessEvents_calls := ProcessEvents_calls h1 @ [event_buffer h1]\<rparr>"
    by (rule SenderThread_iteration_Inr)
  from h1 have "addresses_seen h1 = addresses_seen h"
    by (auto simp: addresses_seen_drain_loop)
  then show ?thesis by (simp add: h')
qed

lemma addresses_seen_InternCallstack:
  "InternCallstackIfNecessaryAndGetKey c h = (key, h1) \<Longrightarrow> addresses_seen h1 = addresses_seen h"
  by (auto simp: InternCallstackIfNecessaryAndGetKey_def Let_def emplace_back_def split: if_splits)

lemma addresses_seen_InternTracepointInfo:
  "InternTracepointInfoIfNecessaryAndGetKey hash info h = (key, h1) \<Longrightarrow>
     addresses_seen h1 = addresses_seen h"
  by (auto simp: InternTracepointInfoIfNecessaryAndGetKey_def Let_def emplace_back_def
      split: if_splits)

lemma addresses_seen_InternString:
  "InternStringIfNecessaryAndGetKey hash str h = (key, h1) \<Longrightarrow> addresses_seen h1 = addresses_seen h"
  using InternString_effect(5) [of hash str h] by simp

lemma addresses_seen_OnAddressInfo:
  assumes "OnAddressInfo hash demangle info h = Inr h'"
  shows "addresses_seen h' = insert (absolute_address info) (addresses_seen h)"
proof (cases "absolute_address info \<in> addresses_seen h")
  case True
  with assms show ?thesis by (auto simp: OnAddressInfo_seen)
next
  case False
  with assms obtain fn mn where
    "function_name_or_key info = kString fn" and "map_name_or_key info = kString mn"
    by (auto simp: OnAddressInfo_def Let_def split: string_or_key.splits prod.splits)
  with assms False show ?thesis
    by (auto simp: OnAddressInfo_first InternString_effect)
qed

lemma addresses_seen_perform:
  assumes "perform lib c h = Inr h'"
  shows "addresses_seen h \<subseteq> addresses_seen h'"
proof (cases c)
  case (Call_Start b)
  with assms show ?thesis by (auto simp: Start_def split: if_splits)
next
  case Call_Stop
  with assms obtain stopped h1 where
    "SenderThread_iteration (ParseFromArray lib) (h\<lparr>tracer := False\<rparr>) = Inr (stopped, h1)"
    and "h' = h1\<lparr>sender_thread := False\<rparr>"
    by (auto simp: Stop_def split: if_splits sum.splits)
  then show ?thesis by (auto dest: addresses_seen_SenderThread_iteration)
next
  case (Worker_iteration timed_out)
  with assms show ?thesis
    by (auto split: if_splits sum.splits dest: addresses_seen_SenderThread_iteration)
next
  case (External_write f)
  with assms show ?thesis by auto
next
  case (Call_OnSchedulingSlice x)
  with assms show ?thesis by (auto simp: OnSchedulingSlice_def)
next
  case (Call_OnCallstackSample x)
  with assms show ?thesis
    by (auto simp: OnCallstackSample_def split: callstack_or_key.splits prod.splits
        dest: addresses_seen_InternCallstack)
next
  case (Call_OnFunctionCall x)
  with assms show ?thesis by (auto simp: OnFunctionCall_def)
next
  case (Call_OnIntrospectionScope x)
  with assms show ?thesis by (auto simp: OnIntrospectionScope_def)
next
  case (Call_OnGpuJob x)
  with assms show ?thesis
    by (auto simp: OnGpuJob_def split: string_or_key.splits prod.splits
        dest: addresses_seen_InternString)
next
  case (Call_OnThreadName x)
  with assms show ?thesis by (auto simp: OnThreadName_def)
next
  case (Call_OnThreadStateSlice x)
  with assms show ?thesis by (auto simp: OnThreadStateSlice_def)
next
  case (Call_OnAddressInfo x)
  with assms show ?thesis by (auto dest: addresses_seen_OnAddressInfo)
next
  case (Call_OnTracepointEvent x)
  with assms show ?thesis
    by (auto simp: OnTracepointEvent_def split: tracepoint_info_or_key.splits prod.splits
        dest: addresses_seen_InternTracepointInfo)
next
  case (Call_InternCallstackIfNecessaryAndGetKey x)
  with assms show ?thesis
    by (auto simp: addresses_seen_InternCallstack [OF surjective_pairing])
next
  case (Call_InternStringIfNecessaryAndGetKey x)
  with assms show ?thesis
    by (auto simp: addresses_seen_InternString [OF surjective_pairing])
next
  case (Call_InternTracepointInfoIfNecessaryAndGetKey x)
  with assms show ?thesis
    by (auto simp: addresses_seen_InternTracepointInfo [OF surjective_pairing])
qed

lemma addresses_seen_run:
  assumes "run lib calls h = Inr h'"
  shows "addresses_seen h \<subseteq> addresses_seen h'"
  using assms
proof (induction calls arbitrary: h)
  case Nil
  then show ?case by simp
next
  case (Cons c cs)
  then obtain h1 where "perform lib c h = Inr h1" and "run lib cs h1 = Inr h'"
    by (auto split: sum.splits)
  with Cons.IH [of h1] addresses_seen_perform [of lib c h h1] show ?case by blast
qed

text \<open>
  C7. A call of \<^verbatim>\<open>OnAddressInfo\<close> with an address that is in the seen-set returns without
  changing anything: the handler after the call is the handler before it. A call with an
  address that is not in the set (and a payload that carries its two names) inserts the
  address and appends the interned strings it needs and then one address-info event for that
  address. Once a call with an address has returned, every later call with the same
  address, after any calls in between, changes nothing.
\<close>

theorem address_gate:
  "(absolute_address info \<in> addresses_seen h \<longrightarrow>
      OnAddressInfo hash demangle info h = Inr h)
   \<and> (absolute_address info \<notin> addresses_seen h \<and> function_name_or_key info = kString fn
        \<and> map_name_or_key info = kString mn \<longrightarrow>
      (\<exists>h' interned ev. OnAddressInfo hash demangle info h = Inr h'
         \<and> addresses_seen h' = insert (absolute_address info) (addresses_seen h)
         \<and> event_buffer h' = event_buffer h @ interned @ [address_info ev]
         \<and> absolute_address ev = absolute_address info
         \<and> (\<forall>e\<in>set interned. interned_key e \<noteq> None)))
   \<and> (OnAddressInfo (std_hash lib) (llvm_demangle lib) info h = Inr h1
        \<and> run lib calls h1 = Inr h2 \<and> absolute_address info' = absolute_address info \<longrightarrow>
      OnAddressInfo (std_hash lib) (llvm_demangle lib) info' h2 = Inr h2)"
proof (intro conjI impI)
  assume "absolute_address info \<in> addresses_seen h"
  then show "OnAddressInfo hash demangle info h = Inr h"
    by (rule OnAddressInfo_seen)
next
  assume a: "absolute_address info \<notin> addresses_seen h \<and> function_name_or_key info = kString fn
        \<and> map_name_or_key info = kString mn"
  define h0 where "h0 = h\<lparr>addresses_seen := insert (absolute_address info) (addresses_seen h)\<rparr>"
  define h1 where "h1 = snd (InternStringIfNecessaryAndGetKey hash (demangle fn) h0)"
  define h2 where "h2 = snd (InternStringIfNecessaryAndGetKey hash mn h1)"
  define ev where "ev = info\<lparr>function_name_or_key := kStringKey (hash (demangle fn)),
                                map_name_or_key := kStringKey (hash mn)\<rparr>"
  define interned :: "'a CaptureEvent list" where "interned =
     (if hash (demangle fn) \<in> string_keys_sent h0 then []
      else [interned_string (hash (demangle fn)) (demangle fn)]) @
     (if hash mn \<in> string_keys_sent h1 then [] else [interned_string (hash mn) mn])"
  from a have "OnAddressInfo hash demangle info h = Inr (emplace_back (address_info ev) h2)"
    by (simp add: OnAddressInfo_first h0_def h1_def h2_def ev_def)
  moreover have "addresses_seen (emplace_back (address_info ev) h2) =
      insert (absolute_address info) (addresses_seen h)"
    by (simp add: h2_def h1_def h0_def InternString_effect)
  moreover have "event_buffer (emplace_back (address_info ev) h2) =
      event_buffer h @ interned @ [address_info ev]"
    by (simp add: h2_def h1_def InternString_effect interned_def) (simp add: h0_def)
  moreover have "absolute_address ev = absolute_address info"
    by (simp add: ev_def)
  moreover have "\<forall>e\<in>set interned. interned_key e \<noteq> None"
    by (simp add: interned_def)
  ultimately show "\<exists>h' interned ev. OnAddressInfo hash demangle info h = Inr h'
         \<and> addresses_seen h' = insert (absolute_address info) (addresses_seen h)
         \<and> event_buffer h' = event_buffer h @ interned @ [address_info ev]
         \<and> absolute_address ev = absolute_address info
         \<and> (\<forall>e\<in>set interned. interned_key e \<noteq> None)"
    by blast
next
  assume a: "OnAddressInfo (std_hash lib) (llvm_demangle lib) info h = Inr h1
        \<and> run lib calls h1 = Inr h2 \<and> absolute_address info' = absolute_address info"
  then have "absolute_address info \<in> addresses_seen h1"
    by (auto dest: addresses_seen_OnAddressInfo)
  moreover from a have "addresses_seen h1 \<subseteq> addresses_seen h2"
    by (auto dest: addresses_seen_run)
  ultimately have "absolute_address info' \<in> addresses_seen h2"
    using a by auto
  then show "OnAddressInfo (std_hash lib) (llvm_demangle lib) info' h2 = Inr h2"
    by (rule OnAddressInfo_seen)
qed

lemma first_address_call:
  "OnAddressInfo toy_hash toy_demangle first_address_info (new_LinuxTracingHandler Absent) =
     Inr after_first_address"
  by (simp add: OnAddressInfo_def first_address_info_def after_first_address_def
      new_LinuxTracingHandler_def InternStringIfNecessaryAndGetKey_def ComputeStringKey_def
      toy_hash_def toy_demangle_def emplace_back_def Let_def insert_commute)

theorem address_gate_witness:
  "OnAddressInfo toy_hash toy_demangle first_address_info (new_LinuxTracingHandler Absent) =
     Inr after_first_address
   \<and> addresses_seen after_first_address = {4096}
   \<and> run toy_library [Call_OnThreadName [7]] after_first_address =
       Inr (emplace_back (thread_name [7]) after_first_address)
   \<and> OnAddressInfo toy_hash toy_demangle
       \<lparr>absolute_address = 4096, address_info_fields = [9],
        function_name_or_key = kString ''bar'', map_name_or_key = kString ''libc''\<rparr>
       (emplace_back (thread_name [7]) after_first_address) =
       Inr (emplace_back (thread_name [7]) after_first_address)"
proof -
  have r: "run toy_library [Call_OnThreadName [7]] after_first_address =
       Inr (emplace_back (thread_name [7]) after_first_address)"
    by (simp add: OnThreadName_def)
  have "absolute_address first_address_info \<notin> addresses_seen (new_LinuxTracingHandler Absent)"
    by (simp add: new_LinuxTracingHandler_def)
  with first_address_call r
    address_gate [of first_address_info "new_LinuxTracingHandler Absent" toy_hash toy_demangle
      "''_Z3foo''" "''gfx''" toy_library after_first_address "[Call_OnThreadName [7]]"
      "emplace_back (thread_name [7]) after_first_address"
      "\<lparr>absolute_address = 4096, address_info_fields = [9],
        function_name_or_key = kString ''bar'', map_name_or_key = kString ''libc''\<rparr>"]
  show ?thesis
    by (simp add: toy_library_def first_address_info_def) (simp add: after_first_address_def)
qed

section \<open>The keys of an address-info event\<close>

lemma OnAddressInfo_first_events:
  fixes hash :: "string \<Rightarrow> u64" and demangle :: "string \<Rightarrow> string"
    and h :: "'m LinuxTracingHandler"
  assumes "absolute_address info \<notin> addresses_seen h"
    and "function_name_or_key info = kString fn" and "map_name_or_key info = kString mn"
  defines "fkey \<equiv> hash (demangle fn)"
  defines "interned \<equiv>
     (if fkey \<in> string_keys_sent h then [] else [interned_string fkey (demangle fn)]) @
     (if hash mn \<in> insert fkey (string_keys_sent h) then [] else [interned_string (hash mn) mn])"
  defines "ev \<equiv> address_info (info\<lparr>function_name_or_key := kStringKey fkey,
                                      map_name_or_key := kStringKey (hash mn)\<rparr>)"
  shows "\<exists>h'. OnAddressInfo hash demangle info h = Inr h'
      \<and> event_buffer h' = event_buffer h @ interned @ [ev]
      \<and> appended h' = appended h @ interned @ [ev]
      \<and> string_keys_sent h' = insert (hash mn) (insert fkey (string_keys_sent h))"
proof -
  define h0 where "h0 = h\<lparr>addresses_seen := insert (absolute_address info) (addresses_seen h)\<rparr>"
  define h1 where "h1 = snd (InternStringIfNecessaryAndGetKey hash (demangle fn) h0)"
  define h2 where "h2 = snd (InternStringIfNecessaryAndGetKey hash mn h1)"
  have s1: "string_keys_sent h1 = insert fkey (string_keys_sent h)"
    by (simp add: h1_def InternString_effect fkey_def) (simp add: h0_def)
  from assms(1-3) have "OnAddressInfo hash demangle info h = Inr (emplace_back ev h2)"
    by (simp add: OnAddressInfo_first h0_def h1_def h2_def ev_def fkey_def)
  moreover have "event_buffer h1 = event_buffer h @
      (if fkey \<in> string_keys_sent h then [] else [interned_string fkey (demangle fn)])"
    by (simp add: h1_def InternString_effect fkey_def) (simp add: h0_def)
  then have "event_buffer (emplace_back ev h2) = event_buffer h @ interned @ [ev]"
    by (simp add: h2_def InternString_effect interned_def s1)
  moreover have "appended h1 = appended h @
      (if fkey \<in> string_keys_sent h then [] else [interned_string fkey (demangle fn)])"
    by (simp add: h1_def InternString_effect fkey_def) (simp add: h0_def)
  then have "appended (emplace_back ev h2) = appended h @ interned @ [ev]"
    by (simp add: h2_def InternString_effect interned_def s1)
  moreover have "string_keys_sent (emplace_back ev h2) =
      insert (hash mn) (insert fkey (string_keys_sent h))"
    by (simp add: emplace_back_def h2_def InternString_effect s1)
  ultimately show ?thesis by blast
qed

text \<open>
  C10. For a first-seen address the appended address-info event carries as
  \<^verbatim>\<open>function_name_key\<close> the string key of the demangled function name and as
  \<^verbatim>\<open>map_name_key\<close> the string key of the map name. The call appends an interned-string
  event with the function-name key exactly when that key was not yet marked sent. A later
  first-seen address whose function name demangles to the same string gets the same
  \<^verbatim>\<open>function_name_key\<close>, and its call appends no interned-string event with that key.
\<close>

theorem address_info_keys:
  assumes "absolute_address a1 \<notin> addresses_seen h"
    and "function_name_or_key a1 = kString fn1" and "map_name_or_key a1 = kString mn1"
  shows "\<exists>h1 interned1. OnAddressInfo hash demangle a1 h = Inr h1
      \<and> event_buffer h1 = event_buffer h @ interned1 @
          [address_info (a1\<lparr>function_name_or_key := kStringKey (hash (demangle fn1)),
                             map_name_or_key := kStringKey (hash mn1)\<rparr>)]
      \<and> interned_count string_domain (hash (demangle fn1)) interned1 =
          (if hash (demangle fn1) \<in> string_keys_sent h then 0 else 1)
      \<and> (\<forall>a2 fn2 mn2.
            absolute_address a2 \<notin> addresses_seen h1 \<and> function_name_or_key a2 = kString fn2
            \<and> map_name_or_key a2 = kString mn2 \<and> demangle fn2 = demangle fn1 \<longrightarrow>
            (\<exists>h2 interned2. OnAddressInfo hash demangle a2 h1 = Inr h2
               \<and> event_buffer h2 = event_buffer h1 @ interned2 @
                   [address_info (a2\<lparr>function_name_or_key := kStringKey (hash (demangle fn1)),
                                      map_name_or_key := kStringKey (hash mn2)\<rparr>)]
               \<and> interned_count string_domain (hash (demangle fn1)) interned2 = 0))"
proof -
  define fkey where "fkey = hash (demangle fn1)"
  define interned1 :: "'a CaptureEvent list" where "interned1 =
     (if fkey \<in> string_keys_sent h then [] else [interned_string fkey (demangle fn1)]) @
     (if hash mn1 \<in> insert fkey (string_keys_sent h) then [] else [interned_string (hash mn1) mn1])"
  from OnAddressInfo_first_events [OF assms, of hash demangle]
  obtain h1 where first: "OnAddressInfo hash demangle a1 h = Inr h1"
    and buf1: "event_buffer h1 = event_buffer h @ interned1 @
          [address_info (a1\<lparr>function_name_or_key := kStringKey fkey,
                             map_name_or_key := kStringKey (hash mn1)\<rparr>)]"
    and sent1: "string_keys_sent h1 = insert (hash mn1) (insert fkey (string_keys_sent h))"
    unfolding fkey_def interned1_def by blast
  have count1: "interned_count string_domain fkey interned1 =
      (if fkey \<in> string_keys_sent h then 0 else 1)"
    by (auto simp: interned1_def interned_count_Cons)
  have second: "\<exists>h2 interned2. OnAddressInfo hash demangle a2 h1 = Inr h2
               \<and> event_buffer h2 = event_buffer h1 @ interned2 @
                   [address_info (a2\<lparr>function_name_or_key := kStringKey fkey,
                                      map_name_or_key := kStringKey (hash mn2)\<rparr>)]
               \<and> interned_count string_domain fkey interned2 = 0"
    if a2: "absolute_address a2 \<notin> addresses_seen h1" "function_name_or_key a2 = kString fn2"
      "map_name_or_key a2 = kString mn2" and same: "demangle fn2 = demangle fn1"
    for a2 :: "'a AddressInfo" and fn2 mn2
  proof -
    define interned2 :: "'a CaptureEvent list" where "interned2 =
      (if hash mn2 \<in> string_keys_sent h1 then [] else [interned_string (hash mn2) mn2])"
    from sent1 have in1: "fkey \<in> string_keys_sent h1" by simp
    from OnAddressInfo_first_events [OF a2, of hash demangle] same in1
    obtain h2 where "OnAddressInfo hash demangle a2 h1 = Inr h2"
      and "event_buffer h2 = event_buffer h1 @ interned2 @
          [address_info (a2\<lparr>function_name_or_key := kStringKey fkey,
                             map_name_or_key := kStringKey (hash mn2)\<rparr>)]"
      by (auto simp: fkey_def interned2_def insert_absorb)
    moreover from in1 have "interned_count string_domain fkey interned2 = 0"
      by (auto simp: interned2_def interned_count_Cons)
    ultimately show ?thesis by blast
  qed
  from first buf1 count1 second show ?thesis
    unfolding fkey_def by blast
qed

theorem address_info_keys_witness:
  "''_Z3foo'' \<noteq> ''foo'' \<and> toy_demangle ''foo'' = toy_demangle ''_Z3foo''
   \<and> toy_hash (toy_demangle ''_Z3foo'') = 310111
   \<and> OnAddressInfo toy_hash toy_demangle first_address_info (new_LinuxTracingHandler Absent) =
       Inr after_first_address
   \<and> (\<exists>h2 interned2.
         OnAddressInfo toy_hash toy_demangle second_address_info after_first_address = Inr h2
         \<and> event_buffer h2 = event_buffer after_first_address @ interned2 @
             [address_info (second_address_info\<lparr>function_name_or_key := kStringKey 310111,
                                                 map_name_or_key := kStringKey 310802\<rparr>)]
         \<and> interned_count string_domain 310111 interned2 = 0)"
proof -
  have fkey: "toy_hash (toy_demangle ''_Z3foo'') = 310111"
    by (simp add: toy_hash_def toy_demangle_def)
  have mkey: "toy_hash ''gfx'' = 310802"
    by (simp add: toy_hash_def)
  have same: "toy_demangle ''foo'' = toy_demangle ''_Z3foo''"
    by (simp add: toy_demangle_def)
  have "absolute_address first_address_info \<notin> addresses_seen (new_LinuxTracingHandler Absent)"
    and "function_name_or_key first_address_info = kString ''_Z3foo''"
    and "map_name_or_key first_address_info = kString ''gfx''"
    by (simp_all add: first_address_info_def new_LinuxTracingHandler_def)
  from address_info_keys [OF this, of toy_hash toy_demangle]
  obtain h1 where "OnAddressInfo toy_hash toy_demangle first_address_info
        (new_LinuxTracingHandler Absent) = Inr h1"
    and later: "\<And>a2 fn2 mn2. absolute_address a2 \<notin> addresses_seen h1 \<Longrightarrow>
         function_name_or_key a2 = kString fn2 \<Longrightarrow> map_name_or_key a2 = kString mn2 \<Longrightarrow>
         toy_demangle fn2 = toy_demangle ''_Z3foo'' \<Longrightarrow>
         \<exists>h2 interned2. OnAddressInfo toy_hash toy_demangle a2 h1 = Inr h2
           \<and> event_buffer h2 = event_buffer h1 @ interned2 @
               [address_info (a2\<lparr>function_name_or_key := kStringKey (toy_hash (toy_demangle ''_Z3foo'')),
                                  map_name_or_key := kStringKey (toy_hash mn2)\<rparr>)]
           \<and> interned_count string_domain (toy_hash (toy_demangle ''_Z3foo'')) interned2 = 0"
    by blast
  with first_address_call have h1: "h1 = after_first_address" by simp
  have "absolute_address second_address_info \<notin> addresses_seen after_first_address"
    and "function_name_or_key second_address_info = kString ''foo''"
    and "map_name_or_key second_address_info = kString ''gfx''"
    by (simp_all add: second_address_info_def after_first_address_def new_LinuxTracingHandler_def)
  from later [unfolded h1, OF this same]
  have "\<exists>h2 interned2.
         OnAddressInfo toy_hash toy_demangle second_address_info after_first_address = Inr h2
         \<and> event_buffer h2 = event_buffer after_first_address @ interned2 @
             [address_info (second_address_info\<lparr>function_name_or_key := kStringKey 310111,
                                                 map_name_or_key := kStringKey 310802\<rparr>)]
         \<and> interned_count string_domain 310111 interned2 = 0"
    by (simp only: fkey mkey)
  with fkey same first_address_call show ?thesis by simp
qed

section \<open>Deduplication looks at the key only\<close>

text \<open>
  C6. The tracepoint key is the string hash of \<open>category @ '':'' @ name\<close>. In each of the
  three domains the tables look at the key only: when two payloads have the same key,
  interning the second after the first returns the same key and leaves the handler as the
  first call left it, and what the first call appended is the interned-payload event of the
  first payload (or nothing, when the key was already marked sent).
\<close>

theorem dedup_by_key_alone:
  "fst (InternTracepointInfoIfNecessaryAndGetKey hash i1 h) = hash (category i1 @ '':'' @ name i1)
   \<and> (hash (category i1 @ '':'' @ name i1) = hash (category i2 @ '':'' @ name i2) \<longrightarrow>
        InternTracepointInfoIfNecessaryAndGetKey hash i2
          (snd (InternTracepointInfoIfNecessaryAndGetKey hash i1 h)) =
          InternTracepointInfoIfNecessaryAndGetKey hash i1 h
        \<and> appended (snd (InternTracepointInfoIfNecessaryAndGetKey hash i1 h)) =
            appended h @
            (if hash (category i1 @ '':'' @ name i1) \<in> tracepoint_keys_sent h then []
             else [interned_tracepoint_info (hash (category i1 @ '':'' @ name i1)) i1]))
   \<and> (hash s1 = hash s2 \<longrightarrow>
        InternStringIfNecessaryAndGetKey hash s2 (snd (InternStringIfNecessaryAndGetKey hash s1 h)) =
          InternStringIfNecessaryAndGetKey hash s1 h
        \<and> appended (snd (InternStringIfNecessaryAndGetKey hash s1 h)) =
            appended h @
            (if hash s1 \<in> string_keys_sent h then [] else [interned_string (hash s1) s1]))
   \<and> (ComputeCallstackKey c1 = ComputeCallstackKey c2 \<longrightarrow>
        InternCallstackIfNecessaryAndGetKey c2 (snd (InternCallstackIfNecessaryAndGetKey c1 h)) =
          InternCallstackIfNecessaryAndGetKey c1 h
        \<and> appended (snd (InternCallstackIfNecessaryAndGetKey c1 h)) =
            appended h @
            (if ComputeCallstackKey c1 \<in> callstack_keys_sent h then []
             else [interned_callstack (ComputeCallstackKey c1) c1]))"
proof (intro conjI impI)
  show "fst (InternTracepointInfoIfNecessaryAndGetKey hash i1 h) = hash (category i1 @ '':'' @ name i1)"
    by (simp add: InternTracepointInfoIfNecessaryAndGetKey_def ComputeStringKey_def Let_def)
next
  assume "hash (category i1 @ '':'' @ name i1) = hash (category i2 @ '':'' @ name i2)"
  then show "InternTracepointInfoIfNecessaryAndGetKey hash i2
          (snd (InternTracepointInfoIfNecessaryAndGetKey hash i1 h)) =
          InternTracepointInfoIfNecessaryAndGetKey hash i1 h"
    by (cases "hash (category i1 @ '':'' @ name i1) \<in> tracepoint_keys_sent h")
       (simp_all add: InternTracepointInfoIfNecessaryAndGetKey_def ComputeStringKey_def Let_def
         emplace_back_def)
next
  show "appended (snd (InternTracepointInfoIfNecessaryAndGetKey hash i1 h)) =
            appended h @
            (if hash (category i1 @ '':'' @ name i1) \<in> tracepoint_keys_sent h then []
             else [interned_tracepoint_info (hash (category i1 @ '':'' @ name i1)) i1])"
    by (simp add: InternTracepointInfoIfNecessaryAndGetKey_def ComputeStringKey_def Let_def
        emplace_back_def)
next
  assume "hash s1 = hash s2"
  then show "InternStringIfNecessaryAndGetKey hash s2
      (snd (InternStringIfNecessaryAndGetKey hash s1 h)) = InternStringIfNecessaryAndGetKey hash s1 h"
    by (cases "hash s1 \<in> string_keys_sent h")
       (simp_all add: InternStringIfNecessaryAndGetKey_def ComputeStringKey_def Let_def
         emplace_back_def)
next
  show "appended (snd (InternStringIfNecessaryAndGetKey hash s1 h)) =
            appended h @
            (if hash s1 \<in> string_keys_sent h then [] else [interned_string (hash s1) s1])"
    by (simp add: InternString_effect)
next
  assume "ComputeCallstackKey c1 = ComputeCallstackKey c2"
  then show "InternCallstackIfNecessaryAndGetKey c2
      (snd (InternCallstackIfNecessaryAndGetKey c1 h)) = InternCallstackIfNecessaryAndGetKey c1 h"
    by (cases "ComputeCallstackKey c1 \<in> callstack_keys_sent h")
       (simp_all add: InternCallstackIfNecessaryAndGetKey_def Let_def emplace_back_def)
next
  show "appended (snd (InternCallstackIfNecessaryAndGetKey c1 h)) =
            appended h @
            (if ComputeCallstackKey c1 \<in> callstack_keys_sent h then []
             else [interned_callstack (ComputeCallstackKey c1) c1])"
    by (simp add: InternCallstackIfNecessaryAndGetKey_def Let_def emplace_back_def)
qed

theorem dedup_by_key_alone_witness:
  "\<lparr>category = ''a:b'', name = ''c''\<rparr> \<noteq> \<lparr>category = ''a'', name = ''b:c''\<rparr>
   \<and> InternTracepointInfoIfNecessaryAndGetKey toy_hash \<lparr>category = ''a'', name = ''b:c''\<rparr>
        (snd (InternTracepointInfoIfNecessaryAndGetKey toy_hash \<lparr>category = ''a:b'', name = ''c''\<rparr>
           (new_LinuxTracingHandler Absent :: (byte list) LinuxTracingHandler))) =
       InternTracepointInfoIfNecessaryAndGetKey toy_hash \<lparr>category = ''a:b'', name = ''c''\<rparr>
         (new_LinuxTracingHandler Absent)
   \<and> appended (snd (InternTracepointInfoIfNecessaryAndGetKey toy_hash \<lparr>category = ''a:b'', name = ''c''\<rparr>
           (new_LinuxTracingHandler Absent :: (byte list) LinuxTracingHandler))) =
       [interned_tracepoint_info (toy_hash ''a:b:c'') \<lparr>category = ''a:b'', name = ''c''\<rparr>]
   \<and> ''Aa'' \<noteq> ''BB'' \<and> toy_hash ''Aa'' = toy_hash ''BB''
   \<and> InternStringIfNecessaryAndGetKey toy_hash ''BB''
        (snd (InternStringIfNecessaryAndGetKey toy_hash ''Aa''
           (new_LinuxTracingHandler Absent :: (byte list) LinuxTracingHandler))) =
       InternStringIfNecessaryAndGetKey toy_hash ''Aa'' (new_LinuxTracingHandler Absent)
   \<and> appended (snd (InternStringIfNecessaryAndGetKey toy_hash ''Aa''
           (new_LinuxTracingHandler Absent :: (byte list) LinuxTracingHandler))) =
       [interned_string 8839 ''Aa'']
   \<and> \<lparr>pcs = [0, 31]\<rparr> \<noteq> \<lparr>pcs = [1, 0]\<rparr>
   \<and> ComputeCallstackKey \<lparr>pcs = [0, 31]\<rparr> = ComputeCallstackKey \<lparr>pcs = [1, 0]\<rparr>
   \<and> InternCallstackIfNecessaryAndGetKey \<lparr>pcs = [1, 0]\<rparr>
        (snd (InternCallstackIfNecessaryAndGetKey \<lparr>pcs = [0, 31]\<rparr>
           (new_LinuxTracingHandler Absent :: (byte list) LinuxTracingHandler))) =
       InternCallstackIfNecessaryAndGetKey \<lparr>pcs = [0, 31]\<rparr> (new_LinuxTracingHandler Absent)
   \<and> appended (snd (InternCallstackIfNecessaryAndGetKey \<lparr>pcs = [0, 31]\<rparr>
           (new_LinuxTracingHandler Absent :: (byte list) LinuxTracingHandler))) =
       [interned_callstack 16368 \<lparr>pcs = [0, 31]\<rparr>]"
proof -
  have s: "toy_hash ''Aa'' = 8839" "toy_hash ''BB'' = 8839"
    by (simp_all add: toy_hash_def)
  have c: "ComputeCallstackKey \<lparr>pcs = [0, 31]\<rparr> = 16368" "ComputeCallstackKey \<lparr>pcs = [1, 0]\<rparr> = 16368"
    by (simp_all add: ComputeCallstackKey_def)
  have e: "tracepoint_keys_sent (new_LinuxTracingHandler Absent :: (byte list) LinuxTracingHandler) = {}"
    "string_keys_sent (new_LinuxTracingHandler Absent :: (byte list) LinuxTracingHandler) = {}"
    "callstack_keys_sent (new_LinuxTracingHandler Absent :: (byte list) LinuxTracingHandler) = {}"
    "appended (new_LinuxTracingHandler Absent :: (byte list) LinuxTracingHandler) = []"
    by (simp_all add: new_LinuxTracingHandler_def)
  from dedup_by_key_alone [of toy_hash "\<lparr>category = ''a:b'', name = ''c''\<rparr>"
      "new_LinuxTracingHandler Absent :: (byte list) LinuxTracingHandler"
      "\<lparr>category = ''a'', name = ''b:c''\<rparr>" "''Aa''" "''BB''"
      "\<lparr>pcs = [0, 31]\<rparr>" "\<lparr>pcs = [1, 0]\<rparr>"]
  show ?thesis
    by (simp add: s c e)
qed

end
